theory Spec2Isabelle
  imports Main "HOL-Library.Word"
begin

unbundle bit_operations_syntax

section \<open>Data model\<close>

text \<open>
  The embedding follows version 2.0.1 of \<^verbatim>\<open>lnkfileinfo.hpp\<close> (class \<^verbatim>\<open>LnkFileInfo\<close>).
  Integer widths are those of the usual 64-bit platforms: \<^verbatim>\<open>int\<close> and \<^verbatim>\<open>uint32_t\<close> have
  32 bits, \<^verbatim>\<open>size_t\<close> has 64 bits. Values of the fixed-width types are words, so their
  arithmetic wraps as in the source. Values of type \<^verbatim>\<open>size_t\<close> are natural numbers: every
  \<^verbatim>\<open>size_t\<close> the parser computes is below \<open>2 ^ 32 + 4 * length bytes + 8\<close>, which does not
  wrap for any buffer that fits into memory.

  A \<^verbatim>\<open>std::vector<uint8_t>\<close> and a \<^verbatim>\<open>std::string\<close> are both lists of bytes. The file is
  read before parsing starts; the model takes the bytes as its input, so \<^verbatim>\<open>IoError\<close> is
  never raised by it.
\<close>

type_synonym byte = "8 word"
type_synonym uint16_t = "16 word"
type_synonym uint32_t = "32 word"

text \<open>
  The exceptions that can leave the parser: the two of the library, and
  \<^verbatim>\<open>std::out_of_range\<close>, which \<^verbatim>\<open>std::vector::at\<close> throws.
\<close>

datatype error = IoError | InvalidLnkFile | out_of_range

text \<open>\<^verbatim>\<open>enum VolumeType: uint8_t\<close>: with a fixed underlying type every byte is a value.\<close>

type_synonym VolumeType = byte

definition Unknown :: VolumeType where "Unknown = 0"
definition NoRootDirectory :: VolumeType where "NoRootDirectory = 1"
definition Removable :: VolumeType where "Removable = 2"
definition HardDrive :: VolumeType where "HardDrive = 3"
definition NetworkDrive :: VolumeType where "NetworkDrive = 4"
definition CdRom :: VolumeType where "CdRom = 5"
definition RamDrive :: VolumeType where "RamDrive = 6"

text \<open>
  The decoded members of the class; \<open>m_x\<close> stands for the member \<^verbatim>\<open>_x\<close>. The two paths of
  the LNK file itself belong to the file system and are left out.
\<close>

record LnkFileInfo =
  m_targetPath :: "byte list"
  m_targetVolumeName :: "byte list"
  m_description :: "byte list"
  m_relativeTargetPath :: "byte list"
  m_workingDirectory :: "byte list"
  m_commandLineArgs :: "byte list"
  m_iconPath :: "byte list"
  m_targetSize :: uint32_t
  m_iconIndex :: uint32_t
  m_targetVolumeSerial :: uint32_t
  m_targetAttributes :: uint16_t
  m_targetVolumeType :: VolumeType
  m_targetIsOnNetwork :: bool

section \<open>Reading integers\<close>

definition vector_at :: "byte list \<Rightarrow> nat \<Rightarrow> error + byte" where
  "vector_at bytes k = (if k < length bytes then Inr (bytes ! k) else Inl out_of_range)"

definition sizeof :: "'a::len itself \<Rightarrow> nat" where
  "sizeof t = LENGTH('a) div 8"

text \<open>The loop of \<^verbatim>\<open>readInteger\<close>: \<open>j\<close> counts up, \<open>todo\<close> is \<^verbatim>\<open>sizeof(T) - j\<close>.\<close>

primrec readInteger_loop ::
  "byte list \<Rightarrow> nat \<Rightarrow> nat \<Rightarrow> nat \<Rightarrow> 'a::len word \<Rightarrow> error + 'a word" where
  "readInteger_loop bytes i j 0 result = Inr result"
| "readInteger_loop bytes i j (Suc todo) result =
     (case vector_at bytes (i + j) of
        Inl e \<Rightarrow> Inl e
      | Inr b \<Rightarrow> readInteger_loop bytes i (Suc j) todo (result + ucast b * push_bit (j * 8) 1))"

definition readInteger :: "byte list \<Rightarrow> nat \<Rightarrow> error + 'a::len word" where
  "readInteger bytes i =
     (if i + sizeof TYPE('a) > length bytes then Inl InvalidLnkFile
      else readInteger_loop bytes i 0 (sizeof TYPE('a)) 0)"

lemma readInteger_Inr_bound:
  "readInteger bytes i = Inr (v :: 'a::len word) \<Longrightarrow> i + sizeof TYPE('a) \<le> length bytes"
  by (simp add: readInteger_def split: if_splits)

lemma sizeof_simps [simp]:
  "sizeof TYPE(8) = 1" "sizeof TYPE(16) = 2" "sizeof TYPE(32) = 4"
  by (simp_all add: sizeof_def)

section \<open>Null-terminated Latin-1 strings\<close>

function readNullTerminatedString_loop :: "byte list \<Rightarrow> nat \<Rightarrow> byte list \<Rightarrow> error + byte list" where
  "readNullTerminatedString_loop bytes i result =
     (case (readInteger bytes i :: error + byte) of
        Inl e \<Rightarrow> Inl e
      | Inr currentCharacter \<Rightarrow>
          if currentCharacter = 0 then Inr result
          else if currentCharacter < 0x80
            then readNullTerminatedString_loop bytes (i + 1) (result @ [currentCharacter])
            else readNullTerminatedString_loop bytes (i + 1)
                   (result @ [0xC0 OR drop_bit 6 currentCharacter, 0x80 OR (currentCharacter AND 0x3F)]))"
  by pat_completeness auto
termination
proof (relation "measure (\<lambda>(bytes, i, result). length bytes - i)")
  show "wf (measure (\<lambda>(bytes, i, result). length bytes - i))"
    by simp
next
  fix bytes :: "byte list" and i :: nat and result :: "byte list" and c :: byte
  assume r: "readInteger bytes i = Inr c"
  from readInteger_Inr_bound [OF r] have "i < length bytes"
    by simp
  then show "((bytes, i + 1, result @ [c]), bytes, i, result)
      \<in> measure (\<lambda>(bytes, i, result). length bytes - i)"
    and "((bytes, i + 1, result @ [0xC0 OR drop_bit 6 c, 0x80 OR (c AND 0x3F)]), bytes, i, result)
      \<in> measure (\<lambda>(bytes, i, result). length bytes - i)"
    by simp_all
qed

declare readNullTerminatedString_loop.simps [simp del]

definition readNullTerminatedString :: "byte list \<Rightarrow> nat \<Rightarrow> error + byte list" where
  "readNullTerminatedString bytes i = readNullTerminatedString_loop bytes i []"

section \<open>UTF-16 to UTF-8\<close>

text \<open>
  The second half of \<^verbatim>\<open>readUtf16Codepoint\<close>: the loop that writes the code point as UTF-8,
  last byte first. \<open>j\<close> runs from \<open>numberOfBytes\<close> down to 1; the mask and the value of a
  continuation byte are replaced by those of the lead byte when \<open>j\<close> is 1.
\<close>

fun readUtf16Codepoint_loop :: "nat \<Rightarrow> nat \<Rightarrow> uint32_t \<Rightarrow> byte list \<Rightarrow> byte list" where
  "readUtf16Codepoint_loop numberOfBytes 0 codepoint result = result"
| "readUtf16Codepoint_loop numberOfBytes (Suc j') codepoint result =
     (let j = Suc j';
          (continuationMask, continuationValue) =
            (if j = 1 then
               (if numberOfBytes = 1 then (0x7F, 0x00)
                else if numberOfBytes = 2 then (0x1F, 0xC0)
                else if numberOfBytes = 3 then (0x0F, 0xE0)
                else if numberOfBytes = 4 then (0x07, 0xF0)
                else (0x3F, 0x80))
             else (0x3F, 0x80));
          cont = (ucast ((codepoint AND continuationMask) OR continuationValue) :: byte)
      in readUtf16Codepoint_loop numberOfBytes j' (drop_bit 6 codepoint) (cont # result))"

definition readUtf16Codepoint_encode :: "uint32_t \<Rightarrow> byte list" where
  "readUtf16Codepoint_encode codepoint =
     (let numberOfBytes =
            (if codepoint > 0xFFFF then 4 else if codepoint > 0x7FF then 3
             else if codepoint > 0x7F then 2 else 1)
      in readUtf16Codepoint_loop numberOfBytes numberOfBytes codepoint [])"

text \<open>
  \<^verbatim>\<open>readUtf16Codepoint(bytes, i, end)\<close> returns the UTF-8 bytes and the number of bytes read.
  The constants of the source are written as their values: the generic surrogate mask
  \<open>0xF800\<close> and value \<open>0xD800\<close>, the surrogate mask \<open>0xFC00\<close>, the high and low surrogate
  values \<open>0xD800\<close> and \<open>0xDC00\<close>, the code point mask \<open>0x03FF\<close>, 10 code point bits, the
  offset \<open>0x10000\<close> and the invalid code point \<open>0xFFFD\<close>.
\<close>

definition readUtf16Codepoint :: "byte list \<Rightarrow> nat \<Rightarrow> nat \<Rightarrow> error + (byte list \<times> nat)" where
  "readUtf16Codepoint bytes i end' =
     (case (readInteger bytes i :: error + uint16_t) of
        Inl e \<Rightarrow> Inl e
      | Inr high \<Rightarrow>
          if (ucast high :: uint32_t) AND 0xF800 \<noteq> 0xD800
            then Inr (readUtf16Codepoint_encode (ucast high), 2)
          else if (ucast high :: uint32_t) AND 0xFC00 \<noteq> 0xD800 \<or> end' < i + 4
            then Inr (readUtf16Codepoint_encode 0xFFFD, 2)
          else
            (case (readInteger bytes (i + 2) :: error + uint16_t) of
               Inl e \<Rightarrow> Inl e
             | Inr low \<Rightarrow>
                 if (ucast low :: uint32_t) AND 0xFC00 \<noteq> 0xDC00
                   then Inr (readUtf16Codepoint_encode 0xFFFD, 2)
                 else Inr (readUtf16Codepoint_encode
                             ((push_bit 10 ((ucast high :: uint32_t) AND 0x03FF)
                                 OR ((ucast low :: uint32_t) AND 0x03FF)) + 0x10000), 4)))"

lemma readUtf16Codepoint_bytesRead:
  "readUtf16Codepoint bytes i end' = Inr (codepoint, bytesRead) \<Longrightarrow> bytesRead = 2 \<or> bytesRead = 4"
  by (auto simp: readUtf16Codepoint_def split: sum.splits if_splits)

section \<open>UTF-16 strings\<close>

function readStringWithPrependedLength_loop ::
  "byte list \<Rightarrow> nat \<Rightarrow> nat \<Rightarrow> byte list \<Rightarrow> error + byte list" where
  "readStringWithPrependedLength_loop bytes i end' result =
     (if i \<le> end' then
        (case readUtf16Codepoint bytes i end' of
           Inl e \<Rightarrow> Inl e
         | Inr (codepoint, bytesRead) \<Rightarrow>
             readStringWithPrependedLength_loop bytes (i + bytesRead) end' (result @ codepoint))
      else Inr result)"
  by pat_completeness auto
termination
proof (relation "measure (\<lambda>(bytes, i, end', result). end' + 1 - i)")
  show "wf (measure (\<lambda>(bytes, i, end', result). end' + 1 - i))"
    by simp
next
  fix bytes :: "byte list" and i end' bytesRead :: nat and result codepoint :: "byte list"
    and x :: "byte list \<times> nat"
  assume "i \<le> end'" and "readUtf16Codepoint bytes i end' = Inr x" and "(codepoint, bytesRead) = x"
  then have "bytesRead = 2 \<or> bytesRead = 4"
    using readUtf16Codepoint_bytesRead [of bytes i end' codepoint bytesRead] by simp
  with \<open>i \<le> end'\<close>
  show "((bytes, i + bytesRead, end', result @ codepoint), bytes, i, end', result)
      \<in> measure (\<lambda>(bytes, i, end', result). end' + 1 - i)"
    by auto
qed

declare readStringWithPrependedLength_loop.simps [simp del]

definition readStringWithPrependedLength :: "byte list \<Rightarrow> nat \<Rightarrow> error + (byte list \<times> nat)" where
  "readStringWithPrependedLength bytes i =
     (case (readInteger bytes i :: error + uint16_t) of
        Inl e \<Rightarrow> Inl e
      | Inr n \<Rightarrow>
          (let end' = i + unat n * 2 in
           case readStringWithPrependedLength_loop bytes (i + 2) end' [] of
             Inl e \<Rightarrow> Inl e
           | Inr result \<Rightarrow> Inr (result, end' + 2)))"

function readFixedLengthString_loop ::
  "byte list \<Rightarrow> nat \<Rightarrow> nat \<Rightarrow> nat \<Rightarrow> byte list \<Rightarrow> error + byte list" where
  "readFixedLengthString_loop bytes offset length' i result =
     (if i < length' then
        (case readUtf16Codepoint bytes (i + offset + 2) (length bytes) of
           Inl e \<Rightarrow> Inl e
         | Inr (codepoint, bytesRead) \<Rightarrow>
             readFixedLengthString_loop bytes offset length' (i + bytesRead) (result @ codepoint))
      else Inr result)"
  by pat_completeness auto
termination
proof (relation "measure (\<lambda>(bytes, offset, length', i, result). length' - i)")
  show "wf (measure (\<lambda>(bytes, offset, length', i, result). length' - i))"
    by simp
next
  fix bytes :: "byte list" and offset length' i bytesRead :: nat and result codepoint :: "byte list"
    and x :: "byte list \<times> nat"
  assume "i < length'" and "readUtf16Codepoint bytes (i + offset + 2) (length bytes) = Inr x"
    and "(codepoint, bytesRead) = x"
  then have "bytesRead = 2 \<or> bytesRead = 4"
    using readUtf16Codepoint_bytesRead [of bytes "i + offset + 2" "length bytes" codepoint bytesRead]
    by simp
  with \<open>i < length'\<close>
  show "((bytes, offset, length', i + bytesRead, result @ codepoint), bytes, offset, length', i, result)
      \<in> measure (\<lambda>(bytes, offset, length', i, result). length' - i)"
    by auto
qed

declare readFixedLengthString_loop.simps [simp del]

definition readFixedLengthString :: "byte list \<Rightarrow> nat \<Rightarrow> nat \<Rightarrow> error + byte list" where
  "readFixedLengthString bytes offset length' = readFixedLengthString_loop bytes offset length' 0 []"

section \<open>The parser\<close>

text \<open>
  \<^verbatim>\<open>refresh\<close> assigns the members one after the other and throws from wherever a read
  fails. The object outlives the exception, so a failed run returns the error together with
  the object as the throw left it; a successful run returns the object. The function is
  split at the comments of the source: the headers, the target info, the path and volume
  info (followed by the Unicode path of the long header), the additional info.
\<close>

type_synonym 'a result = "(error \<times> LnkFileInfo) + 'a"

text \<open>Check the headers: nothing is assigned yet. Returns \<open>start\<close> and \<open>fileinfoHeader\<close>.\<close>

definition refresh_checkHeaders :: "byte list \<Rightarrow> error + (uint16_t \<times> byte)" where
  "refresh_checkHeaders bytes =
     (case (readInteger bytes 0 :: error + byte) of
        Inl e \<Rightarrow> Inl e
      | Inr magic \<Rightarrow>
          if magic \<noteq> 0x4C then Inl InvalidLnkFile
          else
            (case (readInteger bytes 76 :: error + uint16_t) of
               Inl e \<Rightarrow> Inl e
             | Inr extra \<Rightarrow>
                 (let start = 78 + extra in
                  case (readInteger bytes (unat start + 4) :: error + byte) of
                    Inl e \<Rightarrow> Inl e
                  | Inr fileinfoHeader \<Rightarrow>
                      if fileinfoHeader \<noteq> 0x1C \<and> fileinfoHeader \<noteq> 0x24 then Inl InvalidLnkFile
                      else Inr (start, fileinfoHeader))))"

definition refresh_targetInfo :: "byte list \<Rightarrow> uint16_t \<Rightarrow> LnkFileInfo \<Rightarrow> LnkFileInfo result" where
  "refresh_targetInfo bytes start this =
     (case (readInteger bytes 24 :: error + uint16_t) of
        Inl e \<Rightarrow> Inl (e, this)
      | Inr attributes \<Rightarrow>
          (let this = this\<lparr>m_targetAttributes := attributes\<rparr> in
           case (readInteger bytes 52 :: error + uint32_t) of
             Inl e \<Rightarrow> Inl (e, this)
           | Inr size' \<Rightarrow>
               (let this = this\<lparr>m_targetSize := size'\<rparr> in
                case (readInteger bytes (unat start + 8) :: error + byte) of
                  Inl e \<Rightarrow> Inl (e, this)
                | Inr location \<Rightarrow> Inr (this\<lparr>m_targetIsOnNetwork := (location AND 0x02 \<noteq> 0)\<rparr>))))"

text \<open>
  Path and volume info. \<open>volumeOffset\<close> is a \<^verbatim>\<open>uint32_t\<close>, and so are the sums
  \<open>volumeOffset + 20\<close> and \<open>volumeOffset + 21\<close>; \<open>start + 20\<close> is an \<^verbatim>\<open>int\<close>. Returns
  \<open>pathOffset\<close> with the object.
\<close>

definition refresh_network :: "byte list \<Rightarrow> uint16_t \<Rightarrow> LnkFileInfo \<Rightarrow> (nat \<times> LnkFileInfo) result" where
  "refresh_network bytes start this =
     (case (readInteger bytes (unat start + 20) :: error + uint32_t) of
        Inl e \<Rightarrow> Inl (e, this)
      | Inr shareOffset \<Rightarrow>
          (let volumeOffset = (ucast start + shareOffset :: uint32_t);
               this = this\<lparr>m_targetVolumeType := NetworkDrive\<rparr>;
               this = this\<lparr>m_targetVolumeSerial := 0\<rparr>
           in case readNullTerminatedString bytes (unat (volumeOffset + 20)) of
                Inl e \<Rightarrow> Inl (e, this)
              | Inr volumeName \<Rightarrow>
                  (let this = this\<lparr>m_targetVolumeName := volumeName\<rparr>;
                       pathOffset = unat (volumeOffset + 21) + length volumeName
                   in case readNullTerminatedString bytes pathOffset of
                        Inl e \<Rightarrow> Inl (e, this)
                      | Inr targetDrive \<Rightarrow>
                          (let pathOffset = pathOffset + (length targetDrive + 1)
                           in case readNullTerminatedString bytes pathOffset of
                                Inl e \<Rightarrow> Inl (e, this)
                              | Inr rest \<Rightarrow>
                                  Inr (pathOffset,
                                       this\<lparr>m_targetPath := targetDrive @ [0x5C] @ rest\<rparr>)))))"

definition refresh_local :: "byte list \<Rightarrow> uint16_t \<Rightarrow> LnkFileInfo \<Rightarrow> (nat \<times> LnkFileInfo) result" where
  "refresh_local bytes start this =
     (case (readInteger bytes (unat start + 12) :: error + uint32_t) of
        Inl e \<Rightarrow> Inl (e, this)
      | Inr tableOffset \<Rightarrow>
          (let volumeOffset = (ucast start + tableOffset :: uint32_t)
           in case (readInteger bytes (unat (volumeOffset + 4)) :: error + uint32_t) of
                Inl e \<Rightarrow> Inl (e, this)
              | Inr volumeType \<Rightarrow>
                  (let this = this\<lparr>m_targetVolumeType := ucast volumeType\<rparr>
                   in case (readInteger bytes (unat (volumeOffset + 8)) :: error + uint32_t) of
                        Inl e \<Rightarrow> Inl (e, this)
                      | Inr serial \<Rightarrow>
                          (let this = this\<lparr>m_targetVolumeSerial := serial\<rparr>
                           in case readNullTerminatedString bytes (unat (volumeOffset + 16)) of
                                Inl e \<Rightarrow> Inl (e, this)
                              | Inr volumeName \<Rightarrow>
                                  (let this = this\<lparr>m_targetVolumeName := volumeName\<rparr>
                                   in case (readInteger bytes (unat start + 16) :: error + uint32_t) of
                                        Inl e \<Rightarrow> Inl (e, this)
                                      | Inr relativeOffset \<Rightarrow>
                                          (let pathOffset = unat (ucast start + relativeOffset :: uint32_t)
                                           in case readNullTerminatedString bytes pathOffset of
                                                Inl e \<Rightarrow> Inl (e, this)
                                              | Inr path \<Rightarrow>
                                                  Inr (pathOffset, this\<lparr>m_targetPath := path\<rparr>)))))))"

definition refresh_pathAndVolume ::
  "byte list \<Rightarrow> uint16_t \<Rightarrow> LnkFileInfo \<Rightarrow> (nat \<times> LnkFileInfo) result" where
  "refresh_pathAndVolume bytes start this =
     (if m_targetIsOnNetwork this then refresh_network bytes start this
      else refresh_local bytes start this)"

definition refresh_unicodePath :: "byte list \<Rightarrow> byte \<Rightarrow> nat \<Rightarrow> LnkFileInfo \<Rightarrow> LnkFileInfo result" where
  "refresh_unicodePath bytes fileinfoHeader pathOffset this =
     (if fileinfoHeader = 0x24 then
        (case readFixedLengthString bytes (pathOffset + length (m_targetPath this))
                (length (m_targetPath this) * 2) of
           Inl e \<Rightarrow> Inl (e, this)
         | Inr path \<Rightarrow> Inr (this\<lparr>m_targetPath := path\<rparr>))
      else Inr this)"

text \<open>
  Additional info. One optional string of the section: when its flag is set, the string is
  read at \<open>nextLocation\<close>, stored by \<open>assign\<close>, and \<open>nextLocation\<close> moves behind it.
\<close>

definition refresh_optionalString ::
  "byte list \<Rightarrow> bool \<Rightarrow> (byte list \<Rightarrow> LnkFileInfo \<Rightarrow> LnkFileInfo) \<Rightarrow> nat \<times> LnkFileInfo
     \<Rightarrow> (nat \<times> LnkFileInfo) result" where
  "refresh_optionalString bytes present assign state =
     (case state of (nextLocation, this) \<Rightarrow>
        if present then
          (case readStringWithPrependedLength bytes nextLocation of
             Inl e \<Rightarrow> Inl (e, this)
           | Inr data \<Rightarrow> Inr (snd data, assign (fst data) this))
        else Inr (nextLocation, this))"

definition refresh_customIcon :: "byte list \<Rightarrow> bool \<Rightarrow> nat \<times> LnkFileInfo \<Rightarrow> LnkFileInfo result" where
  "refresh_customIcon bytes present state =
     (case state of (nextLocation, this) \<Rightarrow>
        if present then
          (case readStringWithPrependedLength bytes nextLocation of
             Inl e \<Rightarrow> Inl (e, this)
           | Inr data \<Rightarrow>
               (let this = this\<lparr>m_iconPath := fst data\<rparr>
                in case (readInteger bytes 56 :: error + uint32_t) of
                     Inl e \<Rightarrow> Inl (e, this)
                   | Inr index \<Rightarrow> Inr (this\<lparr>m_iconIndex := index\<rparr>)))
        else Inr this)"

definition and_then :: "'a result \<Rightarrow> ('a \<Rightarrow> 'b result) \<Rightarrow> 'b result" where
  "and_then r k = (case r of Inl failure \<Rightarrow> Inl failure | Inr v \<Rightarrow> k v)"

text \<open>The flags \<^verbatim>\<open>HasShellIdList = 0x01\<close> and \<^verbatim>\<open>PointsToFileDir = 0x02\<close> are never tested.\<close>

definition refresh_additionalInfo :: "byte list \<Rightarrow> uint16_t \<Rightarrow> LnkFileInfo \<Rightarrow> LnkFileInfo result" where
  "refresh_additionalInfo bytes start this =
     (case (readInteger bytes 20 :: error + byte) of
        Inl e \<Rightarrow> Inl (e, this)
      | Inr flags \<Rightarrow>
          (case (readInteger bytes (unat start) :: error + uint32_t) of
             Inl e \<Rightarrow> Inl (e, this)
           | Inr sectionOffset \<Rightarrow>
               (let nextLocation = unat (ucast start + sectionOffset :: uint32_t) in
                and_then (refresh_optionalString bytes (flags AND 0x04 \<noteq> 0)
                            (\<lambda>s t. t\<lparr>m_description := s\<rparr>) (nextLocation, this))
               (\<lambda>state. and_then (refresh_optionalString bytes (flags AND 0x08 \<noteq> 0)
                            (\<lambda>s t. t\<lparr>m_relativeTargetPath := s\<rparr>) state)
               (\<lambda>state. and_then (refresh_optionalString bytes (flags AND 0x10 \<noteq> 0)
                            (\<lambda>s t. t\<lparr>m_workingDirectory := s\<rparr>) state)
               (\<lambda>state. and_then (refresh_optionalString bytes (flags AND 0x20 \<noteq> 0)
                            (\<lambda>s t. t\<lparr>m_commandLineArgs := s\<rparr>) state)
               (\<lambda>state. refresh_customIcon bytes (flags AND 0x40 \<noteq> 0) state)))))))"

definition refresh :: "byte list \<Rightarrow> LnkFileInfo \<Rightarrow> LnkFileInfo result" where
  "refresh bytes this =
     (case refresh_checkHeaders bytes of
        Inl e \<Rightarrow> Inl (e, this)
      | Inr (start, fileinfoHeader) \<Rightarrow>
          and_then (refresh_targetInfo bytes start this)
          (\<lambda>this. and_then (refresh_pathAndVolume bytes start this)
          (\<lambda>(pathOffset, this). and_then (refresh_unicodePath bytes fileinfoHeader pathOffset this)
          (\<lambda>this. refresh_additionalInfo bytes start this))))"

section \<open>Accessors\<close>

definition absoluteTargetPath :: "LnkFileInfo \<Rightarrow> byte list" where
  "absoluteTargetPath this = m_targetPath this"

definition hasCustomIcon :: "LnkFileInfo \<Rightarrow> bool" where
  "hasCustomIcon this = (m_iconPath this \<noteq> [])"

definition iconIndex :: "LnkFileInfo \<Rightarrow> int" where
  "iconIndex this = sint (m_iconIndex this)"

definition targetVolumeSerial :: "LnkFileInfo \<Rightarrow> int" where
  "targetVolumeSerial this = sint (m_targetVolumeSerial this)"

definition targetVolumeType :: "LnkFileInfo \<Rightarrow> VolumeType" where
  "targetVolumeType this = m_targetVolumeType this"

section \<open>Example files\<close>

text \<open>
  Small shortcut files, laid out as Windows writes them, with the offset of every field. The
  first points to \<^verbatim>\<open>C:\A\<close> on a local volume named \<^verbatim>\<open>W\<close> and has a relative path; the
  second has the long LinkInfo header with a UTF-16 copy of the target path; the last two
  point to \<^verbatim>\<open>D:\T\<close> on the network share \<^verbatim>\<open>S\<close>.
\<close>

definition plain_lnk :: "byte list" where
  "plain_lnk =
     [0x4C]  \<comment> \<open>0: magic\<close>
     @ replicate 19 0
     @ [0x08]  \<comment> \<open>20: flags: HasRelativePath\<close>
     @ replicate 3 0
     @ [0x20, 0x00]  \<comment> \<open>24: attributes: Archive\<close>
     @ replicate 26 0
     @ [0x0C, 0x00, 0x00, 0x00]  \<comment> \<open>52: target size\<close>
     @ [0x00, 0x00, 0x00, 0x00]  \<comment> \<open>56: icon index\<close>
     @ replicate 16 0
     @ [0x00, 0x00]  \<comment> \<open>76: header extra size, start = 78\<close>
     @ [0x34, 0x00, 0x00, 0x00]  \<comment> \<open>78: offset of the string section, nextLocation = 130\<close>
     @ [0x1C]  \<comment> \<open>82: fileinfo header\<close>
     @ replicate 3 0
     @ [0x01]  \<comment> \<open>86: location flags: local\<close>
     @ replicate 3 0
     @ [0x1C, 0x00, 0x00, 0x00]  \<comment> \<open>90: volume table offset, volumeOffset = 106\<close>
     @ [0x2E, 0x00, 0x00, 0x00]  \<comment> \<open>94: path offset, pathOffset = 124\<close>
     @ replicate 12 0
     @ [0x03, 0x00, 0x00, 0x00]  \<comment> \<open>110: volume type: HardDrive\<close>
     @ [0xE3, 0x9A, 0x6B, 0x6E]  \<comment> \<open>114: volume serial\<close>
     @ replicate 4 0
     @ [0x57, 0x00]  \<comment> \<open>122: volume name\<close>
     @ [0x43, 0x3A, 0x5C, 0x41, 0x00]  \<comment> \<open>124: target path\<close>
     @ [0x00]  \<comment> \<open>129: common path suffix\<close>
     @ [0x01, 0x00, 0x41, 0x00]  \<comment> \<open>130: relative path, 1 code unit\<close>"

definition unicode_lnk :: "byte list" where
  "unicode_lnk =
     [0x4C]  \<comment> \<open>0: magic\<close>
     @ replicate 19 0
     @ [0x00]  \<comment> \<open>20: flags\<close>
     @ replicate 3 0
     @ [0x20, 0x00]  \<comment> \<open>24: attributes: Archive\<close>
     @ replicate 26 0
     @ [0x0C, 0x00, 0x00, 0x00]  \<comment> \<open>52: target size\<close>
     @ replicate 20 0
     @ [0x00, 0x00]  \<comment> \<open>76: header extra size, start = 78\<close>
     @ [0x3B, 0x00, 0x00, 0x00]  \<comment> \<open>78: offset of the string section, nextLocation = 137\<close>
     @ [0x24]  \<comment> \<open>82: fileinfo header\<close>
     @ replicate 3 0
     @ [0x01]  \<comment> \<open>86: location flags: local\<close>
     @ replicate 3 0
     @ [0x24, 0x00, 0x00, 0x00]  \<comment> \<open>90: volume table offset, volumeOffset = 114\<close>
     @ [0x36, 0x00, 0x00, 0x00]  \<comment> \<open>94: path offset, pathOffset = 132\<close>
     @ replicate 20 0
     @ [0x03, 0x00, 0x00, 0x00]  \<comment> \<open>118: volume type: HardDrive\<close>
     @ [0xE3, 0x9A, 0x6B, 0x6E]  \<comment> \<open>122: volume serial\<close>
     @ replicate 4 0
     @ [0x57, 0x00]  \<comment> \<open>130: volume name\<close>
     @ [0x41, 0x00]  \<comment> \<open>132: target path, Latin-1\<close>
     @ [0x00]  \<comment> \<open>134: common path suffix\<close>
     @ [0x42, 0x00]  \<comment> \<open>135: target path, UTF-16\<close>"

definition network_lnk :: "byte list" where
  "network_lnk =
     [0x4C]  \<comment> \<open>0: magic\<close>
     @ replicate 19 0
     @ [0x00]  \<comment> \<open>20: flags\<close>
     @ replicate 3 0
     @ [0x20, 0x00]  \<comment> \<open>24: attributes: Archive\<close>
     @ replicate 26 0
     @ [0x0C, 0x00, 0x00, 0x00]  \<comment> \<open>52: target size\<close>
     @ replicate 20 0
     @ [0x00, 0x00]  \<comment> \<open>76: header extra size, start = 78\<close>
     @ [0x37, 0x00, 0x00, 0x00]  \<comment> \<open>78: offset of the string section, nextLocation = 133\<close>
     @ [0x1C]  \<comment> \<open>82: fileinfo header\<close>
     @ replicate 3 0
     @ [0x02]  \<comment> \<open>86: location flags: network\<close>
     @ replicate 11 0
     @ [0x1C, 0x00, 0x00, 0x00]  \<comment> \<open>98: share info offset, volumeOffset = 106\<close>
     @ replicate 24 0
     @ [0x53, 0x00]  \<comment> \<open>126: share name\<close>
     @ [0x44, 0x3A, 0x00]  \<comment> \<open>128: drive\<close>
     @ [0x54, 0x00]  \<comment> \<open>131: rest of the path\<close>"

definition network_unicode_lnk :: "byte list" where
  "network_unicode_lnk =
     [0x4C]  \<comment> \<open>0: magic\<close>
     @ replicate 19 0
     @ [0x00]  \<comment> \<open>20: flags\<close>
     @ replicate 3 0
     @ [0x20, 0x00]  \<comment> \<open>24: attributes: Archive\<close>
     @ replicate 26 0
     @ [0x0C, 0x00, 0x00, 0x00]  \<comment> \<open>52: target size\<close>
     @ replicate 20 0
     @ [0x00, 0x00]  \<comment> \<open>76: header extra size, start = 78\<close>
     @ [0x4B, 0x00, 0x00, 0x00]  \<comment> \<open>78: offset of the string section, nextLocation = 153\<close>
     @ [0x24]  \<comment> \<open>82: fileinfo header\<close>
     @ replicate 3 0
     @ [0x02]  \<comment> \<open>86: location flags: network\<close>
     @ replicate 11 0
     @ [0x24, 0x00, 0x00, 0x00]  \<comment> \<open>98: share info offset, volumeOffset = 114\<close>
     @ replicate 32 0
     @ [0x53, 0x00]  \<comment> \<open>134: share name\<close>
     @ [0x44, 0x3A, 0x00]  \<comment> \<open>136: drive\<close>
     @ [0x54, 0x00]  \<comment> \<open>139: rest of the path\<close>
     @ replicate 4 0
     @ [0x57, 0x00, 0x58, 0x00, 0x59, 0x00, 0x5A, 0x00]  \<comment> \<open>145: target path, UTF-16\<close>"

text \<open>
  A file whose volume table offset is \<open>0xFFFFFFC2\<close>: added to \<open>start = 78\<close> in a
  \<^verbatim>\<open>uint32_t\<close> it gives \<open>volumeOffset = 16\<close>, so the volume type is read at offset 20, from
  the flag byte \<open>flags\<close>.
\<close>

definition aliased_lnk :: "byte \<Rightarrow> byte list" where
  "aliased_lnk flags =
     [0x4C]  \<comment> \<open>0: magic\<close>
     @ replicate 19 0
     @ [flags]  \<comment> \<open>20: flags\<close>
     @ replicate 61 0
     @ [0x1C]  \<comment> \<open>82: fileinfo header\<close>
     @ replicate 7 0
     @ [0xC2, 0xFF, 0xFF, 0xFF]  \<comment> \<open>90: volume table offset\<close>
     @ replicate 4 0"

text \<open>
  The first example with a description in place of the relative path: the one character
  \<open>U+1F60A\<close>, a surrogate pair.
\<close>

definition emoji_lnk :: "byte list" where
  "emoji_lnk =
     [0x4C]  \<comment> \<open>0: magic\<close>
     @ replicate 19 0
     @ [0x04]  \<comment> \<open>20: flags: HasDescription\<close>
     @ replicate 3 0
     @ [0x20, 0x00]  \<comment> \<open>24: attributes: Archive\<close>
     @ replicate 26 0
     @ [0x0C, 0x00, 0x00, 0x00]  \<comment> \<open>52: target size\<close>
     @ [0x00, 0x00, 0x00, 0x00]  \<comment> \<open>56: icon index\<close>
     @ replicate 16 0
     @ [0x00, 0x00]  \<comment> \<open>76: header extra size, start = 78\<close>
     @ [0x34, 0x00, 0x00, 0x00]  \<comment> \<open>78: offset of the string section, nextLocation = 130\<close>
     @ [0x1C]  \<comment> \<open>82: fileinfo header\<close>
     @ replicate 3 0
     @ [0x01]  \<comment> \<open>86: location flags: local\<close>
     @ replicate 3 0
     @ [0x1C, 0x00, 0x00, 0x00]  \<comment> \<open>90: volume table offset, volumeOffset = 106\<close>
     @ [0x2E, 0x00, 0x00, 0x00]  \<comment> \<open>94: path offset, pathOffset = 124\<close>
     @ replicate 12 0
     @ [0x03, 0x00, 0x00, 0x00]  \<comment> \<open>110: volume type: HardDrive\<close>
     @ [0xE3, 0x9A, 0x6B, 0x6E]  \<comment> \<open>114: volume serial\<close>
     @ replicate 4 0
     @ [0x57, 0x00]  \<comment> \<open>122: volume name\<close>
     @ [0x43, 0x3A, 0x5C, 0x41, 0x00]  \<comment> \<open>124: target path\<close>
     @ [0x00]  \<comment> \<open>129: common path suffix\<close>
     @ [0x02, 0x00, 0x3D, 0xD8, 0x0A, 0xDE]  \<comment> \<open>130: description, 2 code units: U+1F60A\<close>"

text \<open>
  An object as an earlier run of \<^verbatim>\<open>refresh\<close> left it, on a shortcut to a directory with the
  custom icon number 8 of the file \<^verbatim>\<open>i\<close>.
\<close>

definition icon_object :: LnkFileInfo where
  "icon_object =
     \<lparr>m_targetPath = [0x43, 0x3A, 0x5C, 0x41], m_targetVolumeName = [0x57], m_description = [],
      m_relativeTargetPath = [], m_workingDirectory = [], m_commandLineArgs = [],
      m_iconPath = [0x69], m_targetSize = 0, m_iconIndex = 8, m_targetVolumeSerial = 1852545763,
      m_targetAttributes = 0x10, m_targetVolumeType = HardDrive, m_targetIsOnNetwork = False\<rparr>"

section \<open>Notions used in the statements\<close>

text \<open>What \<^verbatim>\<open>readNullTerminatedString\<close> writes for one Latin-1 byte.\<close>

definition latin1_to_utf8 :: "byte \<Rightarrow> byte list" where
  "latin1_to_utf8 c = (if c < 0x80 then [c] else [0xC0 OR drop_bit 6 c, 0x80 OR (c AND 0x3F)])"

text \<open>Two objects agree on the members that describe the target and its volume.\<close>

definition same_target :: "LnkFileInfo \<Rightarrow> LnkFileInfo \<Rightarrow> bool" where
  "same_target a b \<longleftrightarrow>
     m_targetPath a = m_targetPath b \<and> m_targetVolumeName a = m_targetVolumeName b
   \<and> m_targetSize a = m_targetSize b \<and> m_targetVolumeSerial a = m_targetVolumeSerial b
   \<and> m_targetAttributes a = m_targetAttributes b \<and> m_targetVolumeType a = m_targetVolumeType b
   \<and> m_targetIsOnNetwork a = m_targetIsOnNetwork b"

text \<open>
  The bytes of the null-terminated string at offset \<open>i\<close>, without the terminator (all bytes
  from \<open>i\<close> on when no zero byte follows), and strings of bytes below \<open>0x80\<close>.
\<close>

definition c_string :: "byte list \<Rightarrow> nat \<Rightarrow> byte list" where
  "c_string bytes i = takeWhile (\<lambda>c. c \<noteq> 0) (drop i bytes)"

definition ascii :: "byte list \<Rightarrow> bool" where
  "ascii s = list_all (\<lambda>c. c < 0x80) s"

text \<open>
  The fields a run requires, as pairs of offset and width, each at the offset at which the
  parser looks for it. A field whose offset depends on the value of another field is listed
  once that field can be read.

  A null-terminated string is a field that ends with its terminator; when no zero byte
  follows, it ends one byte beyond the buffer. The parser steps over a string it has read by
  the size of the text it returned, \<open>utf8_size\<close>, which is the number of bytes of the string
  when these are below \<open>0x80\<close>.
\<close>

definition utf8_size :: "byte list \<Rightarrow> nat" where
  "utf8_size s = length (concat (map latin1_to_utf8 s))"

definition c_string_field :: "byte list \<Rightarrow> nat \<Rightarrow> nat \<times> nat" where
  "c_string_field bytes i = (i, length (c_string bytes i) + 1)"

text \<open>
  The UTF-16 target path of the long LinkInfo header: for a path of size \<open>size\<close> read at
  \<open>pathOffset\<close>, \<open>2 * size\<close> bytes from \<open>pathOffset + size + 2\<close> on. An empty path has none.
\<close>

definition unicode_path_field :: "byte \<Rightarrow> nat \<Rightarrow> nat \<Rightarrow> (nat \<times> nat) list" where
  "unicode_path_field fileinfoHeader pathOffset size' =
     (if fileinfoHeader = 0x24 \<and> 0 < size' then [(pathOffset + size' + 2, size' * 2)] else [])"

text \<open>
  The network branch: the offset of the share info at \<open>start + 20\<close>, the share name at
  \<open>volumeOffset + 20\<close>, the drive behind it, the rest of the path behind the drive. The sums
  \<open>volumeOffset + 20\<close> and \<open>volumeOffset + 21\<close> are 32-bit sums, as in the parser.
\<close>

definition network_fields :: "byte list \<Rightarrow> uint16_t \<Rightarrow> byte \<Rightarrow> (nat \<times> nat) list" where
  "network_fields bytes start fileinfoHeader =
     (unat start + 20, 4)
     # (case (readInteger bytes (unat start + 20) :: error + uint32_t) of
          Inl e \<Rightarrow> []
        | Inr shareOffset \<Rightarrow>
            (let volumeOffset = (ucast start + shareOffset :: uint32_t);
                 share = unat (volumeOffset + 20);
                 drive = unat (volumeOffset + 21) + utf8_size (c_string bytes share);
                 rest = drive + (utf8_size (c_string bytes drive) + 1);
                 size' = utf8_size (c_string bytes drive) + 1 + utf8_size (c_string bytes rest)
             in [c_string_field bytes share, c_string_field bytes drive, c_string_field bytes rest]
                @ unicode_path_field fileinfoHeader rest size'))"

text \<open>
  The local branch: the offsets of the volume table at \<open>start + 12\<close> and of the path at
  \<open>start + 16\<close>, the volume type, serial and name in the volume table, and the path.
\<close>

definition local_fields :: "byte list \<Rightarrow> uint16_t \<Rightarrow> byte \<Rightarrow> (nat \<times> nat) list" where
  "local_fields bytes start fileinfoHeader =
     [(unat start + 12, 4), (unat start + 16, 4)]
     @ (case (readInteger bytes (unat start + 12) :: error + uint32_t) of
          Inl e \<Rightarrow> []
        | Inr tableOffset \<Rightarrow>
            (let volumeOffset = (ucast start + tableOffset :: uint32_t)
             in [(unat (volumeOffset + 4), 4), (unat (volumeOffset + 8), 4),
                 c_string_field bytes (unat (volumeOffset + 16))]))
     @ (case (readInteger bytes (unat start + 16) :: error + uint32_t) of
          Inl e \<Rightarrow> []
        | Inr relativeOffset \<Rightarrow>
            (let pathOffset = unat (ucast start + relativeOffset :: uint32_t)
             in c_string_field bytes pathOffset
                # unicode_path_field fileinfoHeader pathOffset (utf8_size (c_string bytes pathOffset))))"

text \<open>
  The LinkInfo structure at \<open>start\<close>: the fileinfo header, the location flags, and the
  fields of the branch the flags select.
\<close>

definition link_info_fields :: "byte list \<Rightarrow> uint16_t \<Rightarrow> (nat \<times> nat) list" where
  "link_info_fields bytes start =
     [(unat start + 4, 1), (unat start + 8, 1)]
     @ (case (readInteger bytes (unat start + 4) :: error + byte) of
          Inl e \<Rightarrow> []
        | Inr fileinfoHeader \<Rightarrow>
            (case (readInteger bytes (unat start + 8) :: error + byte) of
               Inl e \<Rightarrow> []
             | Inr location \<Rightarrow>
                 if location AND 0x02 \<noteq> 0 then network_fields bytes start fileinfoHeader
                 else local_fields bytes start fileinfoHeader))"

text \<open>
  The strings of the string section, one behind the other: for each string that is present,
  the count of two bytes and the code units, two bytes each.
\<close>

fun prefixed_string_fields :: "byte list \<Rightarrow> nat \<Rightarrow> bool list \<Rightarrow> (nat \<times> nat) list" where
  "prefixed_string_fields bytes i [] = []"
| "prefixed_string_fields bytes i (present # flags) =
     (if present then
        (i, 2)
        # (case (readInteger bytes i :: error + uint16_t) of
             Inl e \<Rightarrow> []
           | Inr n \<Rightarrow> (i + 2, unat n * 2) # prefixed_string_fields bytes (i + 2 + unat n * 2) flags)
      else prefixed_string_fields bytes i flags)"

text \<open>
  The offset of the string section at \<open>start\<close>, the strings the flags announce (description,
  relative path, working directory, arguments, icon path), and the icon index at 56 when the
  flags announce an icon.
\<close>

definition string_section_fields :: "byte list \<Rightarrow> uint16_t \<Rightarrow> byte \<Rightarrow> (nat \<times> nat) list" where
  "string_section_fields bytes start flags =
     (unat start, 4)
     # (case (readInteger bytes (unat start) :: error + uint32_t) of
          Inl e \<Rightarrow> []
        | Inr sectionOffset \<Rightarrow>
            prefixed_string_fields bytes (unat (ucast start + sectionOffset :: uint32_t))
              (map (\<lambda>flag. flags AND flag \<noteq> 0) [0x04, 0x08, 0x10, 0x20, 0x40]))
     @ (if flags AND 0x40 \<noteq> 0 then [(56, 4)] else [])"

text \<open>
  All fields: the magic byte, the flags, the attributes, the size and the extra size of the
  header, then the LinkInfo structure and the string section, both at \<open>start = 78 + extra\<close>
  (a \<^verbatim>\<open>uint16_t\<close>). A buffer is truncated when one of the fields does not fit into it.
\<close>

definition required_fields :: "byte list \<Rightarrow> (nat \<times> nat) list" where
  "required_fields bytes =
     [(0, 1), (20, 1), (24, 2), (52, 4), (76, 2)]
     @ (case (readInteger bytes 76 :: error + uint16_t) of
          Inl e \<Rightarrow> []
        | Inr extra \<Rightarrow>
            link_info_fields bytes (78 + extra)
            @ (case (readInteger bytes 20 :: error + byte) of
                 Inl e \<Rightarrow> []
               | Inr flags \<Rightarrow> string_section_fields bytes (78 + extra) flags))"

definition truncated :: "byte list \<Rightarrow> bool" where
  "truncated bytes = list_ex (\<lambda>(offset, width). length bytes < offset + width) (required_fields bytes)"

text \<open>All fields of a list lie in the buffer.\<close>

definition fits :: "byte list \<Rightarrow> (nat \<times> nat) list \<Rightarrow> bool" where
  "fits bytes fs = (\<forall>(offset, width) \<in> set fs. offset + width \<le> length bytes)"

text \<open>Two buffers of one length that agree everywhere but at offset 20, the flag byte.\<close>

definition differ_at_20_only :: "byte list \<Rightarrow> byte list \<Rightarrow> bool" where
  "differ_at_20_only bytes' bytes \<longleftrightarrow>
     length bytes' = length bytes \<and> (\<forall>k. k \<noteq> 20 \<longrightarrow> bytes' ! k = bytes ! k)"

text \<open>
  The sums of the parser do not wrap: \<open>78 + extra\<close> fits into the \<^verbatim>\<open>uint16_t\<close> \<open>start\<close>, and
  \<open>start\<close> plus each 32-bit offset the run uses (that of the string section, and those of
  the local or of the network branch), plus the largest constant added to it, fits into a
  \<^verbatim>\<open>uint32_t\<close>. A field that cannot be read imposes nothing.
\<close>

definition offsets_do_not_wrap :: "byte list \<Rightarrow> bool" where
  "offsets_do_not_wrap bytes =
     (case (readInteger bytes 76 :: error + uint16_t) of
        Inl e \<Rightarrow> True
      | Inr extra \<Rightarrow>
          78 + unat extra < 65536 \<and>
          (let start = 78 + unat extra;
               fits = (\<lambda>field margin.
                 case (readInteger bytes (start + field) :: error + uint32_t) of
                   Inl e \<Rightarrow> True
                 | Inr offset \<Rightarrow> start + unat offset + margin < 4294967296)
           in fits 0 0 \<and>
              (case (readInteger bytes (start + 8) :: error + byte) of
                 Inl e \<Rightarrow> True
               | Inr location \<Rightarrow>
                   if location AND 0x02 \<noteq> 0 then fits 20 21 else fits 12 16 \<and> fits 16 0)))"

text \<open>
  UTF-16 and UTF-8 as the Unicode standard defines them, on code points as natural numbers:
  the code units of a code point, the bytes of code units in little-endian order, and the
  bytes of a code point in UTF-8. A scalar value is a code point that is not a surrogate.
\<close>

definition scalar_value :: "nat \<Rightarrow> bool" where
  "scalar_value cp \<longleftrightarrow> cp \<le> 0x10FFFF \<and> \<not> (0xD800 \<le> cp \<and> cp \<le> 0xDFFF)"

definition utf16_encode :: "nat \<Rightarrow> nat list" where
  "utf16_encode cp =
     (if cp < 0x10000 then [cp]
      else [0xD800 + (cp - 0x10000) div 0x400, 0xDC00 + (cp - 0x10000) mod 0x400])"

definition little_endian :: "nat list \<Rightarrow> byte list" where
  "little_endian units = concat (map (\<lambda>u. [of_nat (u mod 0x100), of_nat (u div 0x100)]) units)"

definition utf8_encode :: "nat \<Rightarrow> byte list" where
  "utf8_encode cp =
     (if cp < 0x80 then [of_nat cp]
      else if cp < 0x800 then [of_nat (0xC0 + cp div 0x40), of_nat (0x80 + cp mod 0x40)]
      else if cp < 0x10000 then
        [of_nat (0xE0 + cp div 0x1000), of_nat (0x80 + cp div 0x40 mod 0x40),
         of_nat (0x80 + cp mod 0x40)]
      else
        [of_nat (0xF0 + cp div 0x40000), of_nat (0x80 + cp div 0x1000 mod 0x40),
         of_nat (0x80 + cp div 0x40 mod 0x40), of_nat (0x80 + cp mod 0x40)])"

section \<open>Facts about words\<close>

text \<open>The masks and sums of the parser, read as natural numbers.\<close>

lemma nat_bit_bound: "(n::nat) < 2 ^ m \<Longrightarrow> bit n i \<Longrightarrow> i < m"
  by (metis bit_take_bit_iff take_bit_nat_eq_self)

lemma and_high_nat:
  "n < 2 ^ (k + m) \<Longrightarrow> (n::nat) AND push_bit k (mask m) = push_bit k (drop_bit k n)"
  by (rule bit_eqI) (auto simp: bit_simps dest: nat_bit_bound)

lemma and_FC00_nat: "n < 65536 \<Longrightarrow> (n::nat) AND 0xFC00 = 1024 * (n div 1024)"
  using and_high_nat [of n 10 6] by (simp add: mask_eq_exp_minus_1 push_bit_eq_mult drop_bit_eq_div)

lemma and_F800_nat: "n < 65536 \<Longrightarrow> (n::nat) AND 0xF800 = 2048 * (n div 2048)"
  using and_high_nat [of n 11 5] by (simp add: mask_eq_exp_minus_1 push_bit_eq_mult drop_bit_eq_div)

lemma div_window: "0 < d \<Longrightarrow> ((n::nat) div d = q) = (q * d \<le> n \<and> n < (q + 1) * d)"
  by (metis Suc_eq_plus1 div_nat_eqI dividend_less_div_times div_times_less_eq_dividend mult.commute mult_Suc)

lemma unat_uint16_less: "unat (h :: uint16_t) < 65536"
  using unsigned_less [of h, where 'a = nat] by simp

lemma unat_ucast_uint16: "unat (ucast (h :: uint16_t) :: uint32_t) = unat h"
  using unat_uint16_less [of h] by (simp add: unsigned_ucast_eq take_bit_nat_eq_self)

lemma unat_and_FC00: "unat ((ucast (h :: uint16_t) :: uint32_t) AND 0xFC00) = 1024 * (unat h div 1024)"
  by (simp add: unsigned_and_eq unat_ucast_uint16 and_FC00_nat unat_uint16_less)

lemma unat_and_F800: "unat ((ucast (h :: uint16_t) :: uint32_t) AND 0xF800) = 2048 * (unat h div 2048)"
  by (simp add: unsigned_and_eq unat_ucast_uint16 and_F800_nat unat_uint16_less)

section \<open>Facts about the readers\<close>

text \<open>
  \<^verbatim>\<open>readInteger\<close> checks the range before it touches the buffer, so \<^verbatim>\<open>at\<close> never throws:
  a read either fails with \<^verbatim>\<open>InvalidLnkFile\<close> or returns the little-endian value.
\<close>

lemma readInteger_loop_in_range:
  "i + j + todo \<le> length bytes \<Longrightarrow>
   \<exists>v. readInteger_loop bytes i j todo result = Inr (v :: 'a::len word)"
  by (induction todo arbitrary: j result) (simp_all add: vector_at_def)

lemma readInteger_cases:
  "(readInteger bytes i :: error + 'a::len word) = Inl InvalidLnkFile \<and> length bytes < i + sizeof TYPE('a)
   \<or> (\<exists>v. (readInteger bytes i :: error + 'a word) = Inr v \<and> i + sizeof TYPE('a) \<le> length bytes)"
proof (cases "i + sizeof TYPE('a) > length bytes")
  case True
  then show ?thesis by (simp add: readInteger_def)
next
  case False
  then have "i + 0 + sizeof TYPE('a) \<le> length bytes" by simp
  from readInteger_loop_in_range [OF this, of "0 :: 'a word"] False
  show ?thesis by (auto simp: readInteger_def)
qed


lemma readInteger_u8:
  "(readInteger bytes i :: error + byte) =
     (if i < length bytes then Inr (bytes ! i) else Inl InvalidLnkFile)"
  by (simp add: readInteger_def vector_at_def)

lemma readInteger_u16:
  "(readInteger bytes i :: error + uint16_t) =
     (if i + 2 \<le> length bytes then Inr (ucast (bytes ! i) + ucast (bytes ! (i + 1)) * 256)
      else Inl InvalidLnkFile)"
  by (simp add: readInteger_def vector_at_def eval_nat_numeral)

text \<open>
  \<^verbatim>\<open>readNullTerminatedString\<close> fails when no zero byte follows; otherwise it returns the
  bytes in front of the first zero byte, each written as UTF-8.
\<close>

lemma readNullTerminatedString_loop_eq:
  "readNullTerminatedString_loop bytes i result =
     (if 0 \<in> set (drop i bytes)
      then Inr (result @ concat (map latin1_to_utf8 (takeWhile (\<lambda>c. c \<noteq> 0) (drop i bytes))))
      else Inl InvalidLnkFile)"
proof (induction bytes i result rule: readNullTerminatedString_loop.induct)
  case (1 bytes i result)
  show ?case
  proof (cases "i < length bytes")
    case False
    then show ?thesis
      by (subst readNullTerminatedString_loop.simps) (simp add: readInteger_u8)
  next
    case True
    then have r: "(readInteger bytes i :: error + byte) = Inr (bytes ! i)"
      by (simp add: readInteger_u8)
    have d: "drop i bytes = bytes ! i # drop (i + 1) bytes"
      using True by (simp add: Cons_nth_drop_Suc)
    show ?thesis
    proof (cases "bytes ! i = 0")
      case True
      with r d show ?thesis
        by (subst readNullTerminatedString_loop.simps) simp
    next
      case False
      show ?thesis
      proof (cases "bytes ! i < 0x80")
        case True
        with r d False "1.IH"(1) [OF r False True] show ?thesis
          by (subst readNullTerminatedString_loop.simps) (simp add: latin1_to_utf8_def)
      next
        case notless: False
        with r d False "1.IH"(2) [OF r False notless] show ?thesis
          by (subst readNullTerminatedString_loop.simps) (simp add: latin1_to_utf8_def)
      qed
    qed
  qed
qed

lemma readNullTerminatedString_eq:
  "readNullTerminatedString bytes i =
     (if 0 \<in> set (drop i bytes)
      then Inr (concat (map latin1_to_utf8 (takeWhile (\<lambda>c. c \<noteq> 0) (drop i bytes))))
      else Inl InvalidLnkFile)"
  by (simp add: readNullTerminatedString_def readNullTerminatedString_loop_eq)

lemma concat_latin1_ascii:
  "\<forall>c \<in> set cs. c < 0x80 \<Longrightarrow> concat (map latin1_to_utf8 cs) = cs"
  by (induction cs) (simp_all add: latin1_to_utf8_def)

section \<open>The steps of a successful run\<close>

lemma and_then_Inr:
  "and_then r k = Inr v \<Longrightarrow> \<exists>u. r = Inr u \<and> k u = Inr v"
  by (cases r) (simp_all add: and_then_def)

lemma refresh_Inr:
  assumes "refresh bytes this = Inr this'"
  shows "\<exists>start fileinfoHeader t1 pathOffset t2 t3.
           refresh_checkHeaders bytes = Inr (start, fileinfoHeader)
         \<and> refresh_targetInfo bytes start this = Inr t1
         \<and> refresh_pathAndVolume bytes start t1 = Inr (pathOffset, t2)
         \<and> refresh_unicodePath bytes fileinfoHeader pathOffset t2 = Inr t3
         \<and> refresh_additionalInfo bytes start t3 = Inr this'"
  using assms unfolding refresh_def
  by (auto split: sum.splits prod.splits dest!: and_then_Inr)

lemma refresh_targetInfo_Inr:
  assumes "refresh_targetInfo bytes start this = Inr this'"
  shows "\<exists>attributes size' (location :: byte).
           readInteger bytes 24 = Inr attributes \<and> readInteger bytes 52 = Inr size'
         \<and> readInteger bytes (unat start + 8) = Inr location
         \<and> this' = this\<lparr>m_targetAttributes := attributes, m_targetSize := size',
                           m_targetIsOnNetwork := (location AND 0x02 \<noteq> 0)\<rparr>"
  using assms unfolding refresh_targetInfo_def
  by (auto simp: Let_def split: sum.splits)

lemma refresh_network_Inr:
  assumes "refresh_network bytes start this = Inr (pathOffset, this')"
  shows "\<exists>shareOffset volumeName targetDrive rest.
           readInteger bytes (unat start + 20) = Inr shareOffset
         \<and> readNullTerminatedString bytes (unat (ucast start + shareOffset + 20 :: uint32_t)) = Inr volumeName
         \<and> readNullTerminatedString bytes
               (unat (ucast start + shareOffset + 21 :: uint32_t) + length volumeName) = Inr targetDrive
         \<and> readNullTerminatedString bytes pathOffset = Inr rest
         \<and> pathOffset = unat (ucast start + shareOffset + 21 :: uint32_t) + length volumeName
               + (length targetDrive + 1)
         \<and> this' = this\<lparr>m_targetVolumeType := NetworkDrive, m_targetVolumeSerial := 0,
                           m_targetVolumeName := volumeName,
                           m_targetPath := targetDrive @ [0x5C] @ rest\<rparr>"
  using assms unfolding refresh_network_def
  by (auto simp: Let_def split: sum.splits)

lemma refresh_local_Inr:
  assumes "refresh_local bytes start this = Inr (pathOffset, this')"
  shows "\<exists>tableOffset volumeType serial volumeName relativeOffset path.
           readInteger bytes (unat start + 12) = Inr tableOffset
         \<and> readInteger bytes (unat (ucast start + tableOffset + 4 :: uint32_t)) = Inr volumeType
         \<and> readInteger bytes (unat (ucast start + tableOffset + 8 :: uint32_t)) = Inr serial
         \<and> readNullTerminatedString bytes (unat (ucast start + tableOffset + 16 :: uint32_t)) = Inr volumeName
         \<and> readInteger bytes (unat start + 16) = Inr relativeOffset
         \<and> pathOffset = unat (ucast start + relativeOffset :: uint32_t)
         \<and> readNullTerminatedString bytes pathOffset = Inr path
         \<and> this' = this\<lparr>m_targetVolumeType := ucast (volumeType :: uint32_t), m_targetVolumeSerial := serial,
                           m_targetVolumeName := volumeName, m_targetPath := path\<rparr>"
  using assms unfolding refresh_local_def
  by (auto simp: Let_def split: sum.splits)

lemma refresh_unicodePath_Inr:
  assumes "refresh_unicodePath bytes fileinfoHeader pathOffset this = Inr this'"
  shows "if fileinfoHeader = 0x24
         then \<exists>path. readFixedLengthString bytes (pathOffset + length (m_targetPath this))
                        (length (m_targetPath this) * 2) = Inr path
                    \<and> this' = this\<lparr>m_targetPath := path\<rparr>
         else this' = this"
  using assms unfolding refresh_unicodePath_def
  by (auto split: sum.splits if_splits)

lemma refresh_optionalString_Inr:
  assumes "refresh_optionalString bytes present assign (nextLocation, this) = Inr (nextLocation', this')"
  shows "if present
         then \<exists>s. readStringWithPrependedLength bytes nextLocation = Inr (s, nextLocation')
                \<and> this' = assign s this
         else nextLocation' = nextLocation \<and> this' = this"
  using assms unfolding refresh_optionalString_def
  by (auto split: sum.splits if_splits)

lemma refresh_customIcon_Inr:
  assumes "refresh_customIcon bytes present (nextLocation, this) = Inr this'"
  shows "if present
         then \<exists>s n index. readStringWithPrependedLength bytes nextLocation = Inr (s, n)
                \<and> readInteger bytes 56 = Inr index
                \<and> this' = this\<lparr>m_iconPath := s, m_iconIndex := index\<rparr>
         else this' = this"
  using assms unfolding refresh_customIcon_def
  by (auto simp: Let_def split: sum.splits if_splits)

lemma refresh_additionalInfo_Inr:
  assumes "refresh_additionalInfo bytes start this = Inr this'"
  shows "\<exists>(flags :: byte) sectionOffset n1 t1 n2 t2 n3 t3 n4 t4.
           readInteger bytes 20 = Inr flags \<and> readInteger bytes (unat start) = Inr sectionOffset
         \<and> refresh_optionalString bytes (flags AND 0x04 \<noteq> 0) (\<lambda>s t. t\<lparr>m_description := s\<rparr>)
               (unat (ucast start + sectionOffset :: uint32_t), this) = Inr (n1, t1)
         \<and> refresh_optionalString bytes (flags AND 0x08 \<noteq> 0) (\<lambda>s t. t\<lparr>m_relativeTargetPath := s\<rparr>)
               (n1, t1) = Inr (n2, t2)
         \<and> refresh_optionalString bytes (flags AND 0x10 \<noteq> 0) (\<lambda>s t. t\<lparr>m_workingDirectory := s\<rparr>)
               (n2, t2) = Inr (n3, t3)
         \<and> refresh_optionalString bytes (flags AND 0x20 \<noteq> 0) (\<lambda>s t. t\<lparr>m_commandLineArgs := s\<rparr>)
               (n3, t3) = Inr (n4, t4)
         \<and> refresh_customIcon bytes (flags AND 0x40 \<noteq> 0) (n4, t4) = Inr this'"
  using assms unfolding refresh_additionalInfo_def
  by (auto simp: Let_def split: sum.splits dest!: and_then_Inr)

lemma refresh_additionalInfo_same_target:
  assumes "refresh_additionalInfo bytes start this = Inr this'"
  shows "same_target this' this"
proof -
  from refresh_additionalInfo_Inr [OF assms] obtain flags :: byte and n1 t1 n2 t2 n3 t3 n4 t4 n0 where
    s1: "refresh_optionalString bytes (flags AND 0x04 \<noteq> 0) (\<lambda>s t. t\<lparr>m_description := s\<rparr>) (n0, this) = Inr (n1, t1)"
    and s2: "refresh_optionalString bytes (flags AND 0x08 \<noteq> 0) (\<lambda>s t. t\<lparr>m_relativeTargetPath := s\<rparr>) (n1, t1) = Inr (n2, t2)"
    and s3: "refresh_optionalString bytes (flags AND 0x10 \<noteq> 0) (\<lambda>s t. t\<lparr>m_workingDirectory := s\<rparr>) (n2, t2) = Inr (n3, t3)"
    and s4: "refresh_optionalString bytes (flags AND 0x20 \<noteq> 0) (\<lambda>s t. t\<lparr>m_commandLineArgs := s\<rparr>) (n3, t3) = Inr (n4, t4)"
    and s5: "refresh_customIcon bytes (flags AND 0x40 \<noteq> 0) (n4, t4) = Inr this'"
    by blast
  have "same_target t1 this"
    using refresh_optionalString_Inr [OF s1] by (auto simp: same_target_def split: if_splits)
  moreover have "same_target t2 t1"
    using refresh_optionalString_Inr [OF s2] by (auto simp: same_target_def split: if_splits)
  moreover have "same_target t3 t2"
    using refresh_optionalString_Inr [OF s3] by (auto simp: same_target_def split: if_splits)
  moreover have "same_target t4 t3"
    using refresh_optionalString_Inr [OF s4] by (auto simp: same_target_def split: if_splits)
  moreover have "same_target this' t4"
    using refresh_customIcon_Inr [OF s5] by (auto simp: same_target_def split: if_splits)
  ultimately show ?thesis
    by (simp add: same_target_def)
qed


lemma refresh_checkHeaders_Inr:
  assumes "refresh_checkHeaders bytes = Inr (start, fileinfoHeader)"
  shows "\<exists>extra. readInteger bytes 0 = Inr (0x4C :: byte) \<and> readInteger bytes 76 = Inr extra
           \<and> start = 78 + extra \<and> readInteger bytes (unat start + 4) = Inr fileinfoHeader
           \<and> (fileinfoHeader = 0x1C \<or> fileinfoHeader = 0x24)"
  using assms unfolding refresh_checkHeaders_def
  by (auto simp: Let_def split: sum.splits if_splits)

lemma refresh_pathAndVolume_Inr:
  assumes "refresh_pathAndVolume bytes start this = Inr (pathOffset, this')"
  shows "if m_targetIsOnNetwork this
         then \<exists>shareOffset :: uint32_t. readInteger bytes (unat start + 20) = Inr shareOffset
         else \<exists>(tableOffset :: uint32_t) (relativeOffset :: uint32_t).
                readInteger bytes (unat start + 12) = Inr tableOffset
              \<and> readInteger bytes (unat start + 16) = Inr relativeOffset"
proof (cases "m_targetIsOnNetwork this")
  case True
  with assms have "refresh_network bytes start this = Inr (pathOffset, this')"
    by (simp add: refresh_pathAndVolume_def)
  from refresh_network_Inr [OF this] True show ?thesis
    by auto
next
  case False
  with assms have "refresh_local bytes start this = Inr (pathOffset, this')"
    by (simp add: refresh_pathAndVolume_def)
  from refresh_local_Inr [OF this] False show ?thesis
    by auto
qed

section \<open>The errors of a run\<close>

















section \<open>Buffers that differ in the flag byte\<close>

text \<open>
  A read that does not touch offset 20 gives the same result on both buffers; so does every
  reader that starts behind offset 20, since the readers only move forward.
\<close>

lemma readInteger_loop_cong:
  "length b1 = length b2 \<Longrightarrow> (\<forall>k. i + j \<le> k \<and> k < i + j + todo \<longrightarrow> b1 ! k = b2 ! k) \<Longrightarrow>
   readInteger_loop b1 i j todo result = (readInteger_loop b2 i j todo result :: error + 'a::len word)"
proof (induction todo arbitrary: j result)
  case 0
  then show ?case by simp
next
  case (Suc todo)
  have "b1 ! (i + j) = b2 ! (i + j)"
    using Suc.prems by simp
  moreover have "readInteger_loop b1 i (Suc j) todo r = (readInteger_loop b2 i (Suc j) todo r :: error + 'a word)" for r
    using Suc.prems by (intro Suc.IH) auto
  ultimately show ?case
    using Suc.prems(1) by (simp add: vector_at_def)
qed

lemma readInteger_cong:
  "length b1 = length b2 \<Longrightarrow> (\<forall>k. i \<le> k \<and> k < i + sizeof TYPE('a) \<longrightarrow> b1 ! k = b2 ! k) \<Longrightarrow>
   readInteger b1 i = (readInteger b2 i :: error + 'a::len word)"
  using readInteger_loop_cong [of b1 b2 i 0 "sizeof TYPE('a)" "0 :: 'a word"]
  by (simp add: readInteger_def)

lemma readInteger_behind_20:
  "differ_at_20_only bytes' bytes \<Longrightarrow> 20 < i \<Longrightarrow>
   readInteger bytes' i = (readInteger bytes i :: error + 'a::len word)"
  by (rule readInteger_cong) (auto simp: differ_at_20_only_def)

lemma readInteger_before_20:
  "differ_at_20_only bytes' bytes \<Longrightarrow> i + sizeof TYPE('a) \<le> 20 \<Longrightarrow>
   readInteger bytes' i = (readInteger bytes i :: error + 'a::len word)"
  by (rule readInteger_cong) (auto simp: differ_at_20_only_def)

lemma drop_behind_20:
  "differ_at_20_only bytes' bytes \<Longrightarrow> 20 < i \<Longrightarrow> drop i bytes' = drop i bytes"
  by (rule nth_equalityI) (auto simp: differ_at_20_only_def)

lemma readNullTerminatedString_behind_20:
  "differ_at_20_only bytes' bytes \<Longrightarrow> 20 < i \<Longrightarrow>
   readNullTerminatedString bytes' i = readNullTerminatedString bytes i"
  by (simp add: readNullTerminatedString_eq drop_behind_20)

lemma readUtf16Codepoint_behind_20:
  "differ_at_20_only bytes' bytes \<Longrightarrow> 20 < i \<Longrightarrow>
   readUtf16Codepoint bytes' i end' = readUtf16Codepoint bytes i end'"
  by (simp add: readUtf16Codepoint_def readInteger_behind_20 cong: sum.case_cong if_cong)

lemma readStringWithPrependedLength_loop_behind_20:
  "differ_at_20_only bytes' bytes \<Longrightarrow> 20 < i \<Longrightarrow>
   readStringWithPrependedLength_loop bytes' i end' result
     = readStringWithPrependedLength_loop bytes i end' result"
proof (induction bytes i end' result rule: readStringWithPrependedLength_loop.induct)
  case (1 bytes i end' result)
  show ?case
  proof (cases "i \<le> end'")
    case False
    then show ?thesis
      by (simp add: readStringWithPrependedLength_loop.simps [of _ i])
  next
    case True
    show ?thesis
    proof (cases "readUtf16Codepoint bytes i end'")
      case (Inl e)
      with True "1.prems" show ?thesis
        by (simp add: readStringWithPrependedLength_loop.simps [of _ i] readUtf16Codepoint_behind_20)
    next
      case (Inr x)
      obtain codepoint bytesRead where x: "x = (codepoint, bytesRead)"
        by (cases x)
      from "1.IH" [OF True Inr x [symmetric] "1.prems"(1)] "1.prems"(2)
      have "readStringWithPrependedLength_loop bytes' (i + bytesRead) end' (result @ codepoint)
          = readStringWithPrependedLength_loop bytes (i + bytesRead) end' (result @ codepoint)"
        by simp
      with True Inr x "1.prems" show ?thesis
        by (simp add: readStringWithPrependedLength_loop.simps [of _ i] readUtf16Codepoint_behind_20)
    qed
  qed
qed

lemma readStringWithPrependedLength_behind_20:
  "differ_at_20_only bytes' bytes \<Longrightarrow> 20 < i \<Longrightarrow>
   readStringWithPrependedLength bytes' i = readStringWithPrependedLength bytes i"
  by (simp add: readStringWithPrependedLength_def readInteger_behind_20
      readStringWithPrependedLength_loop_behind_20 cong: sum.case_cong)

lemma readFixedLengthString_loop_behind_20:
  "differ_at_20_only bytes' bytes \<Longrightarrow> 18 < offset \<Longrightarrow>
   readFixedLengthString_loop bytes' offset length' i result
     = readFixedLengthString_loop bytes offset length' i result"
proof (induction bytes offset length' i result rule: readFixedLengthString_loop.induct)
  case (1 bytes offset length' i result)
  from "1.prems" have len: "length bytes' = length bytes"
    by (simp add: differ_at_20_only_def)
  from "1.prems" have r: "readUtf16Codepoint bytes' (i + offset + 2) (length bytes)
      = readUtf16Codepoint bytes (i + offset + 2) (length bytes)"
    by (simp add: readUtf16Codepoint_behind_20)
  show ?case
  proof (cases "i < length'")
    case False
    then show ?thesis
      by (simp add: readFixedLengthString_loop.simps [of _ offset length' i])
  next
    case True
    show ?thesis
    proof (cases "readUtf16Codepoint bytes (i + offset + 2) (length bytes)")
      case (Inl e)
      with True r len show ?thesis
        by (simp add: readFixedLengthString_loop.simps [of _ offset length' i])
    next
      case (Inr x)
      obtain codepoint bytesRead where x: "x = (codepoint, bytesRead)"
        by (cases x)
      from "1.IH" [OF True Inr x [symmetric] "1.prems"]
      have "readFixedLengthString_loop bytes' offset length' (i + bytesRead) (result @ codepoint)
          = readFixedLengthString_loop bytes offset length' (i + bytesRead) (result @ codepoint)" .
      with True Inr x r len show ?thesis
        by (simp add: readFixedLengthString_loop.simps [of _ offset length' i])
    qed
  qed
qed

lemma readFixedLengthString_behind_20:
  "differ_at_20_only bytes' bytes \<Longrightarrow> 18 < offset \<Longrightarrow>
   readFixedLengthString bytes' offset length' = readFixedLengthString bytes offset length'"
  by (simp add: readFixedLengthString_def readFixedLengthString_loop_behind_20)

text \<open>Where the sums do not wrap, every offset of the run is 78 or more.\<close>

lemma unat_start:
  "78 + unat (extra :: uint16_t) < 65536 \<Longrightarrow> unat (78 + extra) = 78 + unat extra"
  by (simp add: unat_word_ariths)

lemma unat_offset:
  fixes start :: uint16_t and offset :: uint32_t
  assumes "unat start + unat offset + k < 4294967296"
  shows "unat (ucast start + offset + of_nat k :: uint32_t) = unat start + unat offset + k"
proof -
  have "unat (ucast start + offset :: uint32_t) = unat start + unat offset"
    using assms by (simp add: unat_word_ariths unat_ucast_uint16)
  moreover have "unat (of_nat k :: uint32_t) = k"
    using assms by (simp add: unat_of_nat)
  ultimately show ?thesis
    using assms by (simp add: unat_word_ariths)
qed

lemmas unat_offsets =
  unat_offset [of _ _ 0, simplified] unat_offset [of _ _ 4, simplified]
  unat_offset [of _ _ 8, simplified] unat_offset [of _ _ 16, simplified]
  unat_offset [of _ _ 20, simplified] unat_offset [of _ _ 21, simplified]

lemma refresh_checkHeaders_agree:
  assumes eq: "differ_at_20_only bytes' bytes"
    and start: "\<And>extra :: uint16_t. readInteger bytes 76 = Inr extra \<Longrightarrow> 78 \<le> unat (78 + extra)"
  shows "refresh_checkHeaders bytes' = refresh_checkHeaders bytes"
proof (cases "readInteger bytes 76 :: error + uint16_t")
  case (Inl e)
  then show ?thesis
    by (simp add: refresh_checkHeaders_def readInteger_behind_20 [OF eq] readInteger_before_20 [OF eq]
        cong: sum.case_cong if_cong)
next
  case (Inr extra)
  from start [OF Inr] have "20 < unat (78 + extra) + 4"
    by simp
  then have "(readInteger bytes' (unat (78 + extra) + 4) :: error + byte)
      = readInteger bytes (unat (78 + extra) + 4)"
    by (rule readInteger_behind_20 [OF eq])
  with Inr show ?thesis
    by (simp add: refresh_checkHeaders_def Let_def readInteger_behind_20 [OF eq]
        readInteger_before_20 [OF eq] cong: sum.case_cong if_cong)
qed

lemma refresh_targetInfo_agree:
  assumes eq: "differ_at_20_only bytes' bytes" and start: "78 \<le> unat start"
  shows "refresh_targetInfo bytes' start this = refresh_targetInfo bytes start this"
proof -
  from start have "20 < unat start + 8"
    by simp
  then have "(readInteger bytes' (unat start + 8) :: error + byte) = readInteger bytes (unat start + 8)"
    by (rule readInteger_behind_20 [OF eq])
  then show ?thesis
    by (simp add: refresh_targetInfo_def Let_def readInteger_behind_20 [OF eq] cong: sum.case_cong)
qed

lemma refresh_network_agree:
  assumes eq: "differ_at_20_only bytes' bytes" and start: "78 \<le> unat start"
    and fits: "\<And>offset :: uint32_t. readInteger bytes (unat start + 20) = Inr offset
      \<Longrightarrow> unat start + unat offset + 21 < 4294967296"
  shows "refresh_network bytes' start this = refresh_network bytes start this"
proof -
  from start have "20 < unat start + 20"
    by simp
  then have r: "(readInteger bytes' (unat start + 20) :: error + uint32_t)
      = readInteger bytes (unat start + 20)"
    by (rule readInteger_behind_20 [OF eq])
  show ?thesis
  proof (cases "readInteger bytes (unat start + 20) :: error + uint32_t")
    case (Inl e)
    with r show ?thesis
      by (simp add: refresh_network_def)
  next
    case (Inr offset)
    from fits [OF Inr] have u: "unat (ucast start + offset + 20 :: uint32_t) = unat start + unat offset + 20"
      "unat (ucast start + offset + 21 :: uint32_t) = unat start + unat offset + 21"
      by (simp_all add: unat_offsets)
    from r Inr start show ?thesis
      by (simp add: refresh_network_def Let_def u readNullTerminatedString_behind_20 [OF eq]
          cong: sum.case_cong)
  qed
qed

lemma refresh_network_pathOffset:
  assumes "refresh_network bytes start this = Inr (pathOffset, this')" and start: "78 \<le> unat start"
    and fits: "\<And>offset :: uint32_t. readInteger bytes (unat start + 20) = Inr offset
      \<Longrightarrow> unat start + unat offset + 21 < 4294967296"
  shows "78 \<le> pathOffset"
proof -
  from refresh_network_Inr [OF assms(1)] obtain shareOffset :: uint32_t and volumeName targetDrive :: "byte list" where
    r: "readInteger bytes (unat start + 20) = Inr shareOffset"
    and p: "pathOffset = unat (ucast start + shareOffset + 21 :: uint32_t) + length volumeName
        + (length targetDrive + 1)"
    by blast
  from fits [OF r] have "unat (ucast start + shareOffset + 21 :: uint32_t)
      = unat start + unat shareOffset + 21"
    by (simp add: unat_offsets)
  with p start show ?thesis
    by simp
qed

lemma refresh_local_agree:
  assumes eq: "differ_at_20_only bytes' bytes" and start: "78 \<le> unat start"
    and fits: "\<And>offset :: uint32_t. readInteger bytes (unat start + 12) = Inr offset
        \<Longrightarrow> unat start + unat offset + 16 < 4294967296"
      "\<And>offset :: uint32_t. readInteger bytes (unat start + 16) = Inr offset
        \<Longrightarrow> unat start + unat offset < 4294967296"
  shows "refresh_local bytes' start this = refresh_local bytes start this"
proof -
  from start have "20 < unat start + 12" and "20 < unat start + 16"
    by simp_all
  then have r: "(readInteger bytes' (unat start + 12) :: error + uint32_t)
      = readInteger bytes (unat start + 12)"
    "(readInteger bytes' (unat start + 16) :: error + uint32_t)
      = readInteger bytes (unat start + 16)"
    by (simp_all add: readInteger_behind_20 [OF eq])
  show ?thesis
  proof (cases "readInteger bytes (unat start + 12) :: error + uint32_t")
    case (Inl e)
    with r show ?thesis
      by (simp add: refresh_local_def)
  next
    case table: (Inr tableOffset)
    from fits(1) [OF table] have u:
      "unat (ucast start + tableOffset + 4 :: uint32_t) = unat start + unat tableOffset + 4"
      "unat (ucast start + tableOffset + 8 :: uint32_t) = unat start + unat tableOffset + 8"
      "unat (ucast start + tableOffset + 16 :: uint32_t) = unat start + unat tableOffset + 16"
      by (simp_all add: unat_offsets)
    show ?thesis
    proof (cases "readInteger bytes (unat start + 16) :: error + uint32_t")
      case (Inl e)
      with r table start show ?thesis
        by (simp add: refresh_local_def Let_def u readInteger_behind_20 [OF eq]
            readNullTerminatedString_behind_20 [OF eq] cong: sum.case_cong)
    next
      case (Inr relativeOffset)
      from fits(2) [OF Inr] have "unat (ucast start + relativeOffset :: uint32_t)
          = unat start + unat relativeOffset"
        by (simp add: unat_offsets)
      with r table Inr start show ?thesis
        by (simp add: refresh_local_def Let_def u readInteger_behind_20 [OF eq]
            readNullTerminatedString_behind_20 [OF eq] cong: sum.case_cong)
    qed
  qed
qed

lemma refresh_local_pathOffset:
  assumes "refresh_local bytes start this = Inr (pathOffset, this')" and start: "78 \<le> unat start"
    and fits: "\<And>offset :: uint32_t. readInteger bytes (unat start + 16) = Inr offset
        \<Longrightarrow> unat start + unat offset < 4294967296"
  shows "78 \<le> pathOffset"
proof -
  from refresh_local_Inr [OF assms(1)] obtain relativeOffset :: uint32_t where
    r: "readInteger bytes (unat start + 16) = Inr relativeOffset"
    and p: "pathOffset = unat (ucast start + relativeOffset :: uint32_t)"
    by blast
  from fits [OF r] have "unat (ucast start + relativeOffset :: uint32_t)
      = unat start + unat relativeOffset"
    by (simp add: unat_offsets)
  with p start show ?thesis
    by simp
qed

lemma refresh_unicodePath_agree:
  assumes eq: "differ_at_20_only bytes' bytes" and "78 \<le> pathOffset"
  shows "refresh_unicodePath bytes' fileinfoHeader pathOffset this
      = refresh_unicodePath bytes fileinfoHeader pathOffset this"
  using assms(2) by (simp add: refresh_unicodePath_def readFixedLengthString_behind_20 [OF eq])

lemma readStringWithPrependedLength_Inr_offset:
  assumes "readStringWithPrependedLength bytes i = Inr (result, nextLocation)"
  shows "\<exists>n :: uint16_t. readInteger bytes i = Inr n \<and> nextLocation = i + unat n * 2 + 2"
  using assms by (auto simp: readStringWithPrependedLength_def Let_def split: sum.splits)

lemma refresh_optionalString_agree:
  assumes eq: "differ_at_20_only bytes' bytes" and "20 < nextLocation"
  shows "refresh_optionalString bytes' present assign (nextLocation, this)
      = refresh_optionalString bytes present assign (nextLocation, this)"
  using assms(2)
  by (simp add: refresh_optionalString_def readStringWithPrependedLength_behind_20 [OF eq])

lemma refresh_optionalString_nextLocation:
  assumes "refresh_optionalString bytes present assign (nextLocation, this) = Inr (nextLocation', this')"
  shows "nextLocation \<le> nextLocation'"
  using refresh_optionalString_Inr [OF assms]
  by (auto split: if_splits dest: readStringWithPrependedLength_Inr_offset)

lemma refresh_customIcon_agree:
  assumes eq: "differ_at_20_only bytes' bytes" and "20 < nextLocation"
  shows "refresh_customIcon bytes' present (nextLocation, this)
      = refresh_customIcon bytes present (nextLocation, this)"
  using assms(2)
  by (simp add: refresh_customIcon_def readStringWithPrependedLength_behind_20 [OF eq]
      readInteger_behind_20 [OF eq] cong: sum.case_cong)

lemma and_then_optionalString_agree:
  assumes eq: "differ_at_20_only bytes' bytes" and n: "20 < nextLocation"
    and k: "\<And>n t. 20 < n \<Longrightarrow> k' (n, t) = k (n, t)"
  shows "and_then (refresh_optionalString bytes' present assign (nextLocation, this)) k'
      = and_then (refresh_optionalString bytes present assign (nextLocation, this)) k"
proof (cases "refresh_optionalString bytes present assign (nextLocation, this)")
  case (Inl failure)
  then show ?thesis
    by (simp add: refresh_optionalString_agree [OF eq n] and_then_def)
next
  case (Inr state)
  obtain n' t' where state: "state = (n', t')"
    by (cases state)
  from Inr state n have "20 < n'"
    using refresh_optionalString_nextLocation [of bytes present assign nextLocation this n' t']
    by simp
  with Inr state show ?thesis
    by (simp add: refresh_optionalString_agree [OF eq n] and_then_def k)
qed

lemma tested_flag_bits:
  fixes flags' flags :: byte
  assumes "flags' AND 0xFC = flags AND 0xFC"
  shows "(flags' AND 0x04 \<noteq> 0) = (flags AND 0x04 \<noteq> 0)"
    and "(flags' AND 0x08 \<noteq> 0) = (flags AND 0x08 \<noteq> 0)"
    and "(flags' AND 0x10 \<noteq> 0) = (flags AND 0x10 \<noteq> 0)"
    and "(flags' AND 0x20 \<noteq> 0) = (flags AND 0x20 \<noteq> 0)"
    and "(flags' AND 0x40 \<noteq> 0) = (flags AND 0x40 \<noteq> 0)"
proof -
  have m: "flags' AND m = flags AND m" if "0xFC AND m = m" for m :: byte
    using that assms by (metis and.assoc)
  show "(flags' AND 0x04 \<noteq> 0) = (flags AND 0x04 \<noteq> 0)"
    and "(flags' AND 0x08 \<noteq> 0) = (flags AND 0x08 \<noteq> 0)"
    and "(flags' AND 0x10 \<noteq> 0) = (flags AND 0x10 \<noteq> 0)"
    and "(flags' AND 0x20 \<noteq> 0) = (flags AND 0x20 \<noteq> 0)"
    and "(flags' AND 0x40 \<noteq> 0) = (flags AND 0x40 \<noteq> 0)"
    by (simp_all add: m)
qed

lemma refresh_additionalInfo_agree:
  assumes eq: "differ_at_20_only bytes' bytes"
    and flags: "bytes' ! 20 AND 0xFC = bytes ! 20 AND 0xFC"
    and start: "78 \<le> unat start"
    and fits: "\<And>offset :: uint32_t. readInteger bytes (unat start) = Inr offset
      \<Longrightarrow> unat start + unat offset < 4294967296"
  shows "refresh_additionalInfo bytes' start this = refresh_additionalInfo bytes start this"
proof -
  from eq have len: "length bytes' = length bytes"
    by (simp add: differ_at_20_only_def)
  from start have "20 < unat start"
    by simp
  then have r: "(readInteger bytes' (unat start) :: error + uint32_t) = readInteger bytes (unat start)"
    by (rule readInteger_behind_20 [OF eq])
  show ?thesis
  proof (cases "readInteger bytes (unat start) :: error + uint32_t")
    case (Inl e)
    with r len show ?thesis
      by (simp add: refresh_additionalInfo_def readInteger_u8)
  next
    case (Inr offset)
    from fits [OF Inr] start have n: "20 < unat (ucast start + offset :: uint32_t)"
      by (simp add: unat_offsets)
    note bits = tested_flag_bits [OF flags]
    have "and_then (refresh_optionalString bytes' (bytes ! 20 AND 0x04 \<noteq> 0)
              (\<lambda>s t. t\<lparr>m_description := s\<rparr>) (unat (ucast start + offset :: uint32_t), this))
            (\<lambda>state. and_then (refresh_optionalString bytes' (bytes ! 20 AND 0x08 \<noteq> 0)
              (\<lambda>s t. t\<lparr>m_relativeTargetPath := s\<rparr>) state)
            (\<lambda>state. and_then (refresh_optionalString bytes' (bytes ! 20 AND 0x10 \<noteq> 0)
              (\<lambda>s t. t\<lparr>m_workingDirectory := s\<rparr>) state)
            (\<lambda>state. and_then (refresh_optionalString bytes' (bytes ! 20 AND 0x20 \<noteq> 0)
              (\<lambda>s t. t\<lparr>m_commandLineArgs := s\<rparr>) state)
            (\<lambda>state. refresh_customIcon bytes' (bytes ! 20 AND 0x40 \<noteq> 0) state))))
        = and_then (refresh_optionalString bytes (bytes ! 20 AND 0x04 \<noteq> 0)
              (\<lambda>s t. t\<lparr>m_description := s\<rparr>) (unat (ucast start + offset :: uint32_t), this))
            (\<lambda>state. and_then (refresh_optionalString bytes (bytes ! 20 AND 0x08 \<noteq> 0)
              (\<lambda>s t. t\<lparr>m_relativeTargetPath := s\<rparr>) state)
            (\<lambda>state. and_then (refresh_optionalString bytes (bytes ! 20 AND 0x10 \<noteq> 0)
              (\<lambda>s t. t\<lparr>m_workingDirectory := s\<rparr>) state)
            (\<lambda>state. and_then (refresh_optionalString bytes (bytes ! 20 AND 0x20 \<noteq> 0)
              (\<lambda>s t. t\<lparr>m_commandLineArgs := s\<rparr>) state)
            (\<lambda>state. refresh_customIcon bytes (bytes ! 20 AND 0x40 \<noteq> 0) state))))"
      by (intro and_then_optionalString_agree [OF eq] refresh_customIcon_agree [OF eq] n)
    with r Inr len show ?thesis
      by (simp add: refresh_additionalInfo_def readInteger_u8 Let_def bits)
  qed
qed

lemma refresh_agree:
  assumes eq: "differ_at_20_only bytes' bytes"
    and flags: "bytes' ! 20 AND 0xFC = bytes ! 20 AND 0xFC"
    and nowrap: "offsets_do_not_wrap bytes"
  shows "refresh bytes' this = refresh bytes this"
proof -
  have start: "78 \<le> unat (78 + extra)" if "readInteger bytes 76 = Inr extra" for extra :: uint16_t
    using nowrap that by (simp add: offsets_do_not_wrap_def unat_start)
  note headers = refresh_checkHeaders_agree [OF eq start]
  show ?thesis
  proof (cases "refresh_checkHeaders bytes")
    case (Inl e)
    with headers show ?thesis
      by (simp add: refresh_def)
  next
    case (Inr x)
    obtain start fileinfoHeader where x: "x = (start, fileinfoHeader)"
      by (cases x)
    from refresh_checkHeaders_Inr [OF Inr [unfolded x]] obtain extra where
      extra: "readInteger bytes 76 = Inr extra" "start = 78 + extra"
      by blast
    from nowrap extra have u: "unat start = 78 + unat extra"
      by (simp add: offsets_do_not_wrap_def unat_start)
    then have s: "78 \<le> unat start"
      by simp
    have strings: "unat start + unat offset < 4294967296"
      if "readInteger bytes (unat start) = Inr offset" for offset :: uint32_t
      using nowrap extra(1) that by (simp add: offsets_do_not_wrap_def u Let_def)
    have network: "unat start + unat offset + 21 < 4294967296"
      if "readInteger bytes (unat start + 8) = Inr location" "location AND 0x02 \<noteq> 0"
        "readInteger bytes (unat start + 20) = Inr offset"
      for offset :: uint32_t and location :: byte
      using nowrap extra(1) that by (simp add: offsets_do_not_wrap_def u Let_def)
    have local: "unat start + unat offset + 16 < 4294967296"
      if "readInteger bytes (unat start + 8) = Inr location" "location AND 0x02 = 0"
        "readInteger bytes (unat start + 12) = Inr offset"
      for offset :: uint32_t and location :: byte
      using nowrap extra(1) that by (simp add: offsets_do_not_wrap_def u Let_def)
    have path: "unat start + unat offset < 4294967296"
      if "readInteger bytes (unat start + 8) = Inr location" "location AND 0x02 = 0"
        "readInteger bytes (unat start + 16) = Inr offset"
      for offset :: uint32_t and location :: byte
      using nowrap extra(1) that by (simp add: offsets_do_not_wrap_def u Let_def)
    note info = refresh_targetInfo_agree [OF eq s, of this]
    show ?thesis
    proof (cases "refresh_targetInfo bytes start this")
      case (Inl failure)
      with headers Inr x info show ?thesis
        by (simp add: refresh_def and_then_def)
    next
      case t1: (Inr t1)
      from refresh_targetInfo_Inr [OF t1] obtain location :: byte where
        location: "readInteger bytes (unat start + 8) = Inr location"
        and net: "m_targetIsOnNetwork t1 = (location AND 0x02 \<noteq> 0)"
        by auto
      have volume: "refresh_pathAndVolume bytes' start t1 = refresh_pathAndVolume bytes start t1"
      proof (cases "m_targetIsOnNetwork t1")
        case True
        with net refresh_network_agree [OF eq s network [OF location]] show ?thesis
          by (simp add: refresh_pathAndVolume_def)
      next
        case False
        with net refresh_local_agree [OF eq s local [OF location] path [OF location]] show ?thesis
          by (simp add: refresh_pathAndVolume_def)
      qed
      show ?thesis
      proof (cases "refresh_pathAndVolume bytes start t1")
        case (Inl failure)
        with headers Inr x info t1 volume show ?thesis
          by (simp add: refresh_def and_then_def)
      next
        case t2: (Inr y)
        obtain pathOffset t2 where y: "y = (pathOffset, t2)"
          by (cases y)
        have p: "78 \<le> pathOffset"
        proof (cases "m_targetIsOnNetwork t1")
          case True
          with t2 y have "refresh_network bytes start t1 = Inr (pathOffset, t2)"
            by (simp add: refresh_pathAndVolume_def)
          from refresh_network_pathOffset [OF this s network [OF location]] True net show ?thesis
            by simp
        next
          case False
          with t2 y have "refresh_local bytes start t1 = Inr (pathOffset, t2)"
            by (simp add: refresh_pathAndVolume_def)
          from refresh_local_pathOffset [OF this s path [OF location]] False net show ?thesis
            by simp
        qed
        note unicode = refresh_unicodePath_agree [OF eq p, of fileinfoHeader t2]
        show ?thesis
        proof (cases "refresh_unicodePath bytes fileinfoHeader pathOffset t2")
          case (Inl failure)
          with headers Inr x info t1 volume t2 y unicode show ?thesis
            by (simp add: refresh_def and_then_def)
        next
          case t3: (Inr t3)
          from headers Inr x info t1 volume t2 y unicode t3
            refresh_additionalInfo_agree [OF eq flags s strings, of t3]
          show ?thesis
            by (simp add: refresh_def and_then_def)
        qed
      qed
    qed
  qed
qed

section \<open>What a run that succeeds has read\<close>

text \<open>
  A null-terminated string that is read has its terminator in the buffer; it is returned as
  it stands when its bytes are below \<open>0x80\<close>.
\<close>

lemma takeWhile_terminated:
  "z \<in> set xs \<Longrightarrow> length (takeWhile (\<lambda>c. c \<noteq> z) xs) < length xs"
  by (induction xs) auto

lemma readNullTerminatedString_c_string:
  assumes "readNullTerminatedString bytes i = Inr s"
  shows "s = concat (map latin1_to_utf8 (c_string bytes i))"
    and "i + length (c_string bytes i) < length bytes"
    and "ascii (c_string bytes i) \<Longrightarrow> s = c_string bytes i"
proof -
  from assms have zero: "0 \<in> set (drop i bytes)"
    and s: "s = concat (map latin1_to_utf8 (c_string bytes i))"
    by (simp_all add: readNullTerminatedString_eq c_string_def split: if_splits)
  show "s = concat (map latin1_to_utf8 (c_string bytes i))"
    by (fact s)
  from zero have "length (takeWhile (\<lambda>c. c \<noteq> 0) (drop i bytes)) < length (drop i bytes)"
    by (rule takeWhile_terminated)
  then show "i + length (c_string bytes i) < length bytes"
    by (simp add: c_string_def)
  show "s = c_string bytes i" if "ascii (c_string bytes i)"
    using that s by (simp add: ascii_def list_all_iff concat_latin1_ascii)
qed

lemma unat_next_offset:
  fixes x :: uint32_t
  assumes "unat (x + 20) + 1 < 4294967296"
  shows "unat (x + 21) = unat (x + 20) + 1"
proof -
  have "x + 21 = (x + 20) + 1"
    by simp
  then have "unat (x + 21) = (unat (x + 20) + unat (1 :: uint32_t)) mod 2 ^ 32"
    by (simp only: unat_word_ariths(1)) simp
  with assms show ?thesis
    by simp
qed







text \<open>The fields of each part of a run that succeeds lie in the buffer.\<close>

lemma fits_simps [simp]:
  "fits bytes []" "fits bytes (f # fs) = (fst f + snd f \<le> length bytes \<and> fits bytes fs)"
  "fits bytes (fs @ fs') = (fits bytes fs \<and> fits bytes fs')"
  by (auto simp: fits_def split_beta)

lemma truncated_fits: "truncated bytes = (\<not> fits bytes (required_fields bytes))"
  by (simp add: truncated_def fits_def list_ex_iff split_beta not_le)








section \<open>What a run needs to succeed\<close>

text \<open>
  Conversely, each reader succeeds on a field that lies in the buffer, and each part of a run
  succeeds when its fields do: no read fails for another reason than a field that ends
  beyond the buffer.
\<close>

lemma readInteger_fits:
  assumes "i + sizeof TYPE('a) \<le> length bytes"
  obtains v :: "'a::len word" where "readInteger bytes i = Inr v"
  using readInteger_cases [of bytes i, where 'a = 'a] assms by auto

lemma takeWhile_not_terminated:
  "z \<notin> set xs \<Longrightarrow> takeWhile (\<lambda>c. c \<noteq> z) xs = xs"
  by (induction xs) auto

lemma readNullTerminatedString_fits:
  assumes "fits bytes [c_string_field bytes i]"
  shows "readNullTerminatedString bytes i = Inr (concat (map latin1_to_utf8 (c_string bytes i)))"
proof -
  have "0 \<in> set (drop i bytes)"
  proof (rule ccontr)
    assume "0 \<notin> set (drop i bytes)"
    then have "c_string bytes i = drop i bytes"
      unfolding c_string_def by (rule takeWhile_not_terminated)
    with assms show False
      by (simp add: c_string_field_def)
  qed
  then show ?thesis
    by (simp add: readNullTerminatedString_eq c_string_def)
qed

lemma readUtf16Codepoint_fits:
  assumes "i + 2 \<le> length bytes" and "end' < i + 4 \<or> i + 4 \<le> length bytes"
  shows "\<exists>codepoint bytesRead. readUtf16Codepoint bytes i end' = Inr (codepoint, bytesRead)"
proof -
  from assms(1) have "i + sizeof TYPE(16) \<le> length bytes"
    by simp
  then obtain high :: uint16_t where high: "readInteger bytes i = Inr high"
    by (rule readInteger_fits)
  show ?thesis
  proof (cases "end' < i + 4")
    case True
    with high show ?thesis
      by (simp add: readUtf16Codepoint_def)
  next
    case False
    with assms(2) have "i + 2 + sizeof TYPE(16) \<le> length bytes"
      by simp
    then obtain low :: uint16_t where "readInteger bytes (i + 2) = Inr low"
      by (rule readInteger_fits)
    with high show ?thesis
      by (simp add: readUtf16Codepoint_def)
  qed
qed

lemma readStringWithPrependedLength_loop_fits:
  assumes "end' + 2 \<le> length bytes"
  shows "\<exists>r. readStringWithPrependedLength_loop bytes i end' result = Inr r"
  using assms
proof (induction bytes i end' result rule: readStringWithPrependedLength_loop.induct)
  case (1 bytes i end' result)
  show ?case
  proof (cases "i \<le> end'")
    case True
    with "1.prems" have "i + 2 \<le> length bytes" and "end' < i + 4 \<or> i + 4 \<le> length bytes"
      by auto
    from readUtf16Codepoint_fits [OF this] obtain codepoint bytesRead where
      read: "readUtf16Codepoint bytes i end' = Inr (codepoint, bytesRead)"
      by blast
    from "1.IH" [OF True read refl "1.prems"] True read show ?thesis
      by (subst readStringWithPrependedLength_loop.simps) simp
  next
    case False
    then show ?thesis
      by (subst readStringWithPrependedLength_loop.simps) simp
  qed
qed

lemma readStringWithPrependedLength_fits:
  assumes "readInteger bytes i = Inr (n :: uint16_t)" and "i + 2 + unat n * 2 \<le> length bytes"
  shows "\<exists>s. readStringWithPrependedLength bytes i = Inr (s, i + 2 + unat n * 2)"
proof -
  from assms(2) have "i + unat n * 2 + 2 \<le> length bytes"
    by simp
  from readStringWithPrependedLength_loop_fits [OF this, of "i + 2" "[]"] assms(1) show ?thesis
    by (auto simp: readStringWithPrependedLength_def Let_def)
qed

lemma readFixedLengthString_loop_fits:
  assumes "offset + 2 + length' \<le> length bytes" and "even i" and "even length'"
  shows "\<exists>r. readFixedLengthString_loop bytes offset length' i result = Inr r"
  using assms
proof (induction bytes offset length' i result rule: readFixedLengthString_loop.induct)
  case (1 bytes offset length' i result)
  show ?case
  proof (cases "i < length'")
    case True
    with "1.prems"(2,3) have "i + 2 \<le> length'"
      by (auto elim!: evenE)
    with "1.prems"(1) have "i + offset + 2 + 2 \<le> length bytes"
      and "length bytes < i + offset + 2 + 4 \<or> i + offset + 2 + 4 \<le> length bytes"
      by auto
    from readUtf16Codepoint_fits [OF this] obtain codepoint bytesRead where
      read: "readUtf16Codepoint bytes (i + offset + 2) (length bytes) = Inr (codepoint, bytesRead)"
      by blast
    from readUtf16Codepoint_bytesRead [OF read] "1.prems"(2) have "even (i + bytesRead)"
      by auto
    from "1.IH" [OF True read refl "1.prems"(1) this "1.prems"(3)] True read show ?thesis
      by (subst readFixedLengthString_loop.simps) simp
  next
    case False
    then show ?thesis
      by (subst readFixedLengthString_loop.simps) simp
  qed
qed

lemma readFixedLengthString_fits:
  assumes "0 < n \<longrightarrow> offset + 2 + n * 2 \<le> length bytes"
  shows "\<exists>r. readFixedLengthString bytes offset (n * 2) = Inr r"
proof (cases "0 < n")
  case True
  with assms readFixedLengthString_loop_fits [of offset "n * 2" bytes 0 "[]"] show ?thesis
    by (simp add: readFixedLengthString_def)
next
  case False
  then show ?thesis
    unfolding readFixedLengthString_def
    by (subst readFixedLengthString_loop.simps) simp
qed

lemma refresh_unicodePath_fits:
  assumes "fits bytes (unicode_path_field fileinfoHeader pathOffset (length (m_targetPath this)))"
  shows "\<exists>this'. refresh_unicodePath bytes fileinfoHeader pathOffset this = Inr this'"
proof (cases "fileinfoHeader = 0x24")
  case True
  with assms have "0 < length (m_targetPath this)
      \<longrightarrow> pathOffset + length (m_targetPath this) + 2 + length (m_targetPath this) * 2 \<le> length bytes"
    by (auto simp: unicode_path_field_def)
  from readFixedLengthString_fits [OF this] True show ?thesis
    by (auto simp: refresh_unicodePath_def)
next
  case False
  then show ?thesis
    by (simp add: refresh_unicodePath_def)
qed

lemma refresh_network_fits:
  assumes "fits bytes (network_fields bytes start fileinfoHeader)"
  shows "\<exists>pathOffset t2 t3. refresh_network bytes start this = Inr (pathOffset, t2)
           \<and> refresh_unicodePath bytes fileinfoHeader pathOffset t2 = Inr t3"
proof -
  from assms have "unat start + 20 + sizeof TYPE(32) \<le> length bytes"
    by (simp add: network_fields_def)
  then obtain shareOffset :: uint32_t where shareOffset: "readInteger bytes (unat start + 20) = Inr shareOffset"
    by (rule readInteger_fits)
  define share where "share = unat (ucast start + shareOffset + 20 :: uint32_t)"
  define driveOffset where "driveOffset
      = unat (ucast start + shareOffset + 21 :: uint32_t) + utf8_size (c_string bytes share)"
  define restOffset where "restOffset = driveOffset + (utf8_size (c_string bytes driveOffset) + 1)"
  define size' where "size'
      = utf8_size (c_string bytes driveOffset) + 1 + utf8_size (c_string bytes restOffset)"
  have fields: "network_fields bytes start fileinfoHeader
      = (unat start + 20, 4) # [c_string_field bytes share, c_string_field bytes driveOffset,
          c_string_field bytes restOffset] @ unicode_path_field fileinfoHeader restOffset size'"
    by (simp add: network_fields_def shareOffset Let_def share_def driveOffset_def restOffset_def
        size'_def)
  from assms have f: "fits bytes [c_string_field bytes share]" "fits bytes [c_string_field bytes driveOffset]"
    "fits bytes [c_string_field bytes restOffset]"
    "fits bytes (unicode_path_field fileinfoHeader restOffset size')"
    unfolding fields by simp_all
  note name = readNullTerminatedString_fits [OF f(1)]
  note drive = readNullTerminatedString_fits [OF f(2)]
  note rest = readNullTerminatedString_fits [OF f(3)]
  define t2 where "t2 = this\<lparr>m_targetVolumeType := NetworkDrive, m_targetVolumeSerial := 0,
      m_targetVolumeName := concat (map latin1_to_utf8 (c_string bytes share)),
      m_targetPath := concat (map latin1_to_utf8 (c_string bytes driveOffset)) @ [0x5C]
        @ concat (map latin1_to_utf8 (c_string bytes restOffset))\<rparr>"
  have r: "Suc (driveOffset + utf8_size (c_string bytes driveOffset)) = restOffset"
    by (simp add: restOffset_def)
  have network: "refresh_network bytes start this = Inr (restOffset, t2)"
    using name drive rest
    by (simp add: refresh_network_def shareOffset Let_def share_def [symmetric]
        utf8_size_def [symmetric] driveOffset_def [symmetric] r t2_def)
  have "length (m_targetPath t2) = size'"
    by (simp add: t2_def size'_def utf8_size_def)
  with f(4) refresh_unicodePath_fits [of bytes fileinfoHeader restOffset t2] network show ?thesis
    by auto
qed

lemma refresh_local_fits:
  assumes "fits bytes (local_fields bytes start fileinfoHeader)"
  shows "\<exists>pathOffset t2 t3. refresh_local bytes start this = Inr (pathOffset, t2)
           \<and> refresh_unicodePath bytes fileinfoHeader pathOffset t2 = Inr t3"
proof -
  from assms have "unat start + 12 + sizeof TYPE(32) \<le> length bytes"
    and "unat start + 16 + sizeof TYPE(32) \<le> length bytes"
    by (simp_all add: local_fields_def)
  then obtain tableOffset :: uint32_t and relativeOffset :: uint32_t where
    tableOffset: "readInteger bytes (unat start + 12) = Inr tableOffset"
    and relativeOffset: "readInteger bytes (unat start + 16) = Inr relativeOffset"
    by (metis readInteger_fits)
  define pathOffset where "pathOffset = unat (ucast start + relativeOffset :: uint32_t)"
  from assms have f: "unat (ucast start + tableOffset + 4 :: uint32_t) + sizeof TYPE(32) \<le> length bytes"
    "unat (ucast start + tableOffset + 8 :: uint32_t) + sizeof TYPE(32) \<le> length bytes"
    "fits bytes [c_string_field bytes (unat (ucast start + tableOffset + 16 :: uint32_t))]"
    "fits bytes [c_string_field bytes pathOffset]"
    "fits bytes (unicode_path_field fileinfoHeader pathOffset (utf8_size (c_string bytes pathOffset)))"
    by (simp_all add: local_fields_def tableOffset relativeOffset Let_def pathOffset_def)
  from f(1,2) obtain volumeType :: uint32_t and serial :: uint32_t where
    volumeType: "readInteger bytes (unat (ucast start + tableOffset + 4 :: uint32_t)) = Inr volumeType"
    and serial: "readInteger bytes (unat (ucast start + tableOffset + 8 :: uint32_t)) = Inr serial"
    by (metis readInteger_fits)
  note name = readNullTerminatedString_fits [OF f(3)]
  note path = readNullTerminatedString_fits [OF f(4)]
  define t2 where "t2 = this\<lparr>m_targetVolumeType := ucast volumeType, m_targetVolumeSerial := serial,
      m_targetVolumeName := concat (map latin1_to_utf8
        (c_string bytes (unat (ucast start + tableOffset + 16 :: uint32_t)))),
      m_targetPath := concat (map latin1_to_utf8 (c_string bytes pathOffset))\<rparr>"
  have local: "refresh_local bytes start this = Inr (pathOffset, t2)"
    using name path
    by (simp add: refresh_local_def tableOffset relativeOffset volumeType serial Let_def
        pathOffset_def [symmetric] t2_def)
  have "length (m_targetPath t2) = utf8_size (c_string bytes pathOffset)"
    by (simp add: t2_def utf8_size_def)
  with f(5) refresh_unicodePath_fits [of bytes fileinfoHeader pathOffset t2] local show ?thesis
    by auto
qed

lemma refresh_optionalString_fits:
  assumes "fits bytes (prefixed_string_fields bytes nextLocation (present # flags))"
  shows "\<exists>nextLocation' this'.
           refresh_optionalString bytes present assign (nextLocation, this) = Inr (nextLocation', this')
         \<and> fits bytes (prefixed_string_fields bytes nextLocation' flags)"
proof (cases present)
  case True
  with assms have "nextLocation + sizeof TYPE(16) \<le> length bytes"
    by simp
  then obtain n :: uint16_t where n: "readInteger bytes nextLocation = Inr n"
    by (rule readInteger_fits)
  with assms True have "nextLocation + 2 + unat n * 2 \<le> length bytes"
    and rest: "fits bytes (prefixed_string_fields bytes (nextLocation + 2 + unat n * 2) flags)"
    by simp_all
  from readStringWithPrependedLength_fits [OF n this(1)] True rest show ?thesis
    by (auto simp: refresh_optionalString_def)
next
  case False
  with assms show ?thesis
    by (simp add: refresh_optionalString_def)
qed

lemma refresh_customIcon_fits:
  assumes "fits bytes (prefixed_string_fields bytes nextLocation [present])"
    and "present \<longrightarrow> 56 + 4 \<le> length bytes"
  shows "\<exists>this'. refresh_customIcon bytes present (nextLocation, this) = Inr this'"
proof (cases present)
  case True
  with assms have "nextLocation + sizeof TYPE(16) \<le> length bytes"
    by simp
  then obtain n :: uint16_t where n: "readInteger bytes nextLocation = Inr n"
    by (rule readInteger_fits)
  with assms True have "nextLocation + 2 + unat n * 2 \<le> length bytes"
    by simp
  from readStringWithPrependedLength_fits [OF n this] obtain s where
    s: "readStringWithPrependedLength bytes nextLocation = Inr (s, nextLocation + 2 + unat n * 2)"
    by blast
  from assms(2) True have "56 + sizeof TYPE(32) \<le> length bytes"
    by simp
  then obtain index :: uint32_t where "readInteger bytes 56 = Inr index"
    by (rule readInteger_fits)
  with s True show ?thesis
    by (simp add: refresh_customIcon_def)
next
  case False
  then show ?thesis
    by (simp add: refresh_customIcon_def)
qed

lemma refresh_additionalInfo_fits:
  assumes flags: "readInteger bytes 20 = Inr flags"
    and fits: "fits bytes (string_section_fields bytes start flags)"
  shows "\<exists>this'. refresh_additionalInfo bytes start this = Inr this'"
proof -
  from fits have "unat start + sizeof TYPE(32) \<le> length bytes"
    by (simp add: string_section_fields_def)
  then obtain sectionOffset :: uint32_t where sectionOffset: "readInteger bytes (unat start) = Inr sectionOffset"
    by (rule readInteger_fits)
  from fits have strings: "fits bytes (prefixed_string_fields bytes (unat (ucast start + sectionOffset :: uint32_t))
      ((flags AND 0x04 \<noteq> 0) # (flags AND 0x08 \<noteq> 0) # (flags AND 0x10 \<noteq> 0)
        # (flags AND 0x20 \<noteq> 0) # [flags AND 0x40 \<noteq> 0]))"
    by (simp add: string_section_fields_def sectionOffset del: prefixed_string_fields.simps)
  from fits have index: "flags AND 0x40 \<noteq> 0 \<longrightarrow> 56 + 4 \<le> length bytes"
    by (auto simp: string_section_fields_def sectionOffset simp del: prefixed_string_fields.simps)
  from refresh_optionalString_fits [OF strings] obtain n1 t1 where
    s1: "refresh_optionalString bytes (flags AND 0x04 \<noteq> 0) (\<lambda>s t. t\<lparr>m_description := s\<rparr>)
           (unat (ucast start + sectionOffset :: uint32_t), this) = Inr (n1, t1)"
    and f1: "fits bytes (prefixed_string_fields bytes n1 ((flags AND 0x08 \<noteq> 0) # (flags AND 0x10 \<noteq> 0)
        # (flags AND 0x20 \<noteq> 0) # [flags AND 0x40 \<noteq> 0]))"
    by blast
  from refresh_optionalString_fits [OF f1] obtain n2 t2 where
    s2: "refresh_optionalString bytes (flags AND 0x08 \<noteq> 0) (\<lambda>s t. t\<lparr>m_relativeTargetPath := s\<rparr>)
           (n1, t1) = Inr (n2, t2)"
    and f2: "fits bytes (prefixed_string_fields bytes n2 ((flags AND 0x10 \<noteq> 0)
        # (flags AND 0x20 \<noteq> 0) # [flags AND 0x40 \<noteq> 0]))"
    by blast
  from refresh_optionalString_fits [OF f2] obtain n3 t3 where
    s3: "refresh_optionalString bytes (flags AND 0x10 \<noteq> 0) (\<lambda>s t. t\<lparr>m_workingDirectory := s\<rparr>)
           (n2, t2) = Inr (n3, t3)"
    and f3: "fits bytes (prefixed_string_fields bytes n3 ((flags AND 0x20 \<noteq> 0) # [flags AND 0x40 \<noteq> 0]))"
    by blast
  from refresh_optionalString_fits [OF f3] obtain n4 t4 where
    s4: "refresh_optionalString bytes (flags AND 0x20 \<noteq> 0) (\<lambda>s t. t\<lparr>m_commandLineArgs := s\<rparr>)
           (n3, t3) = Inr (n4, t4)"
    and f4: "fits bytes (prefixed_string_fields bytes n4 [flags AND 0x40 \<noteq> 0])"
    by blast
  from refresh_customIcon_fits [OF f4 index] obtain this' where
    "refresh_customIcon bytes (flags AND 0x40 \<noteq> 0) (n4, t4) = Inr this'"
    by blast
  with s1 s2 s3 s4 show ?thesis
    by (simp add: refresh_additionalInfo_def flags sectionOffset Let_def and_then_def)
qed

section \<open>The magic byte\<close>

lemma refresh_checkHeaders_wrong_magic:
  assumes "bytes = [] \<or> hd bytes \<noteq> 0x4C"
  shows "refresh_checkHeaders bytes = Inl InvalidLnkFile"
proof (cases bytes)
  case Nil
  then show ?thesis by (simp add: refresh_checkHeaders_def readInteger_u8)
next
  case (Cons b bs)
  with assms have "b \<noteq> 0x4C" by simp
  with Cons show ?thesis by (simp add: refresh_checkHeaders_def readInteger_u8)
qed

text \<open>
  Claim C8. A buffer whose first byte is not \<open>0x4C\<close> is refused with \<^verbatim>\<open>InvalidLnkFile\<close>,
  whatever follows; so is the empty buffer, which has no first byte. Nothing has been
  assigned at that point: the object is as before.
\<close>

theorem refresh_wrong_magic:
  assumes "bytes = [] \<or> hd bytes \<noteq> 0x4C"
  shows "refresh bytes this = Inl (InvalidLnkFile, this)"
  using refresh_checkHeaders_wrong_magic [OF assms] by (simp add: refresh_def)

theorem refresh_wrong_magic_witness:
  "refresh [0x4D, 0x53] icon_object = Inl (InvalidLnkFile, icon_object)"
  using refresh_wrong_magic [of "[0x4D, 0x53]" icon_object] by simp

section \<open>The offset behind a string\<close>

text \<open>
  Claim C6. When a string with a prepended length is read at offset \<open>i\<close> and the 16-bit
  count there is \<open>n\<close>, the offset returned for the next field is \<open>i + 2 * n + 2\<close>: it
  depends on \<open>i\<close> and \<open>n\<close> only, not on the code units of the string.
\<close>

theorem readStringWithPrependedLength_offset:
  assumes "readStringWithPrependedLength bytes i = Inr (result, nextLocation)"
  shows "\<exists>n :: uint16_t. readInteger bytes i = Inr n \<and> nextLocation = i + unat n * 2 + 2"
  using assms by (auto simp: readStringWithPrependedLength_def Let_def split: sum.splits)

theorem readStringWithPrependedLength_offset_witness:
  "readStringWithPrependedLength [0x03, 0x00, 0x3D, 0xD8, 0x0A, 0xDE, 0x41, 0x00] 0
     = Inr ([0xF0, 0x9F, 0x98, 0x8A, 0x41], 8)
   \<and> (\<exists>n :: uint16_t. readInteger [0x03, 0x00, 0x3D, 0xD8, 0x0A, 0xDE, 0x41, 0x00] 0 = Inr n
          \<and> (8 :: nat) = 0 + unat n * 2 + 2)"
proof -
  have r: "readStringWithPrependedLength [0x03, 0x00, 0x3D, 0xD8, 0x0A, 0xDE, 0x41, 0x00] 0
     = Inr ([0xF0, 0x9F, 0x98, 0x8A, 0x41], 8)"
    by code_simp
  from readStringWithPrependedLength_offset [OF r] r show ?thesis
    by simp
qed

section \<open>Surrogate code units\<close>

text \<open>
  The masks of \<^verbatim>\<open>readUtf16Codepoint\<close> select ranges of code units: the generic surrogate
  test the range \<open>0xD800..0xDFFF\<close>, the high surrogate test \<open>0xD800..0xDBFF\<close>, the low
  surrogate test \<open>0xDC00..0xDFFF\<close>.
\<close>

lemma generic_surrogate_iff:
  "((ucast (h :: uint16_t) :: uint32_t) AND 0xF800 = 0xD800) = (0xD800 \<le> h \<and> h \<le> 0xDFFF)"
proof -
  have "((ucast h :: uint32_t) AND 0xF800 = 0xD800) = (2048 * (unat h div 2048) = 55296)"
    by (simp add: word_unat_eq_iff unat_and_F800)
  also have "\<dots> = (55296 \<le> unat h \<and> unat h \<le> 57343)"
    using div_window [of 2048 "unat h" 27] by auto
  finally show ?thesis
    by (simp add: word_le_nat_alt)
qed

lemma high_surrogate_iff:
  "((ucast (h :: uint16_t) :: uint32_t) AND 0xFC00 = 0xD800) = (0xD800 \<le> h \<and> h \<le> 0xDBFF)"
proof -
  have "((ucast h :: uint32_t) AND 0xFC00 = 0xD800) = (1024 * (unat h div 1024) = 55296)"
    by (simp add: word_unat_eq_iff unat_and_FC00)
  also have "\<dots> = (55296 \<le> unat h \<and> unat h \<le> 56319)"
    using div_window [of 1024 "unat h" 54] by auto
  finally show ?thesis
    by (simp add: word_le_nat_alt)
qed

lemma low_surrogate_iff:
  "((ucast (h :: uint16_t) :: uint32_t) AND 0xFC00 = 0xDC00) = (0xDC00 \<le> h \<and> h \<le> 0xDFFF)"
proof -
  have "((ucast h :: uint32_t) AND 0xFC00 = 0xDC00) = (1024 * (unat h div 1024) = 56320)"
    by (simp add: word_unat_eq_iff unat_and_FC00)
  also have "\<dots> = (56320 \<le> unat h \<and> unat h \<le> 57343)"
    using div_window [of 1024 "unat h" 55] by auto
  finally show ?thesis
    by (simp add: word_le_nat_alt)
qed

lemma encode_replacement: "readUtf16Codepoint_encode 0xFFFD = [0xEF, 0xBF, 0xBD]"
  by code_simp

text \<open>
  Claim C5, amended. Let the code unit at \<open>i\<close> be a high surrogate. When the bound \<open>end\<close> is
  less than \<open>i + 4\<close>, or when the next code unit lies in the buffer and is not a low
  surrogate, \<^verbatim>\<open>readUtf16Codepoint\<close> returns the replacement character \<open>EF BF BD\<close> and 2 as
  the number of bytes read; it does not throw.
\<close>

theorem readUtf16Codepoint_lone_high_surrogate:
  fixes high :: uint16_t
  assumes "readInteger bytes i = Inr high" and "0xD800 \<le> high" and "high \<le> 0xDBFF"
    and "end' < i + 4
      \<or> (\<exists>low :: uint16_t. readInteger bytes (i + 2) = Inr low \<and> \<not> (0xDC00 \<le> low \<and> low \<le> 0xDFFF))"
  shows "readUtf16Codepoint bytes i end' = Inr ([0xEF, 0xBF, 0xBD], 2)"
proof -
  have generic: "(ucast high :: uint32_t) AND 0xF800 = 0xD800"
    using assms(2,3) by (simp add: generic_surrogate_iff word_le_nat_alt)
  have high: "(ucast high :: uint32_t) AND 0xFC00 = 0xD800"
    using assms(2,3) by (simp add: high_surrogate_iff)
  show ?thesis
  proof (cases "end' < i + 4")
    case True
    with assms(1) generic high show ?thesis
      by (simp add: readUtf16Codepoint_def encode_replacement)
  next
    case False
    with assms(4) obtain low :: uint16_t
      where low: "readInteger bytes (i + 2) = Inr low" "\<not> (0xDC00 \<le> low \<and> low \<le> 0xDFFF)"
      by blast
    from low(2) have "(ucast low :: uint32_t) AND 0xFC00 \<noteq> 0xDC00"
      by (simp add: low_surrogate_iff)
    with False assms(1) generic high low(1) show ?thesis
      by (simp add: readUtf16Codepoint_def encode_replacement)
  qed
qed

theorem readUtf16Codepoint_lone_high_surrogate_witness:
  "readUtf16Codepoint [0x3D, 0xD8, 0x41, 0x00] 0 4 = Inr ([0xEF, 0xBF, 0xBD], 2)
   \<and> readUtf16Codepoint [0x3D, 0xD8, 0x0A, 0xDE] 0 2 = Inr ([0xEF, 0xBF, 0xBD], 2)"
proof -
  have h1: "(readInteger [0x3D, 0xD8, 0x41, 0x00] 0 :: error + uint16_t) = Inr 0xD83D"
    and l1: "(readInteger [0x3D, 0xD8, 0x41, 0x00] (0 + 2) :: error + uint16_t) = Inr 0x0041"
    and h2: "(readInteger [0x3D, 0xD8, 0x0A, 0xDE] 0 :: error + uint16_t) = Inr 0xD83D"
    by code_simp+
  have "readUtf16Codepoint [0x3D, 0xD8, 0x41, 0x00] 0 4 = Inr ([0xEF, 0xBF, 0xBD], 2)"
    by (rule readUtf16Codepoint_lone_high_surrogate [OF h1]) (use l1 in simp_all)
  moreover have "readUtf16Codepoint [0x3D, 0xD8, 0x0A, 0xDE] 0 2 = Inr ([0xEF, 0xBF, 0xBD], 2)"
    by (rule readUtf16Codepoint_lone_high_surrogate [OF h2]) simp_all
  ultimately show ?thesis by simp
qed

text \<open>
  The claim as stated fails where the buffer ends behind the high surrogate while the bound
  does not: the read of the low surrogate throws \<^verbatim>\<open>InvalidLnkFile\<close>.
\<close>

theorem readUtf16Codepoint_high_surrogate_at_end_of_buffer:
  "(readInteger [0x00, 0xD8] 0 :: error + uint16_t) = Inr 0xD800
   \<and> readUtf16Codepoint [0x00, 0xD8] 0 4 = Inl InvalidLnkFile"
  by code_simp

section \<open>The transcoder against the standard encodings\<close>

lemma and_low_nat: "(x::nat) AND mask k = x mod 2 ^ k"
  by (simp flip: take_bit_eq_mask add: take_bit_eq_mod)

lemma and_low_nat_numerals:
  "(x::nat) AND 0x7F = x mod 128" "(x::nat) AND 0x3F = x mod 64" "(x::nat) AND 0x1F = x mod 32"
  "(x::nat) AND 0x0F = x mod 16" "(x::nat) AND 0x07 = x mod 8" "(x::nat) AND 0x3FF = x mod 1024"
  using and_low_nat [of x 7] and_low_nat [of x 6] and_low_nat [of x 5] and_low_nat [of x 4]
    and_low_nat [of x 3] and_low_nat [of x 10]
  by (simp_all add: mask_eq_exp_minus_1)

lemma or_high_nat: "(y::nat) < 2 ^ k \<Longrightarrow> y OR push_bit k c = y + push_bit k c"
proof -
  assume "y < 2 ^ k"
  then have "y AND push_bit k c = 0"
    by (intro bit_eqI) (auto simp: bit_simps dest: nat_bit_bound)
  then show ?thesis
    by (simp add: disjunctive_add_eq_or)
qed

lemma or_high_nat_numerals:
  "(y::nat) < 64 \<Longrightarrow> y OR 0x80 = 0x80 + y" "(y::nat) < 32 \<Longrightarrow> y OR 0xC0 = 0xC0 + y"
  "(y::nat) < 16 \<Longrightarrow> y OR 0xE0 = 0xE0 + y" "(y::nat) < 8 \<Longrightarrow> y OR 0xF0 = 0xF0 + y"
  using or_high_nat [of y 7 1] or_high_nat [of y 6 3] or_high_nat [of y 5 7] or_high_nat [of y 4 15]
  by (simp_all add: push_bit_eq_mult)

lemma byte_of_unat: "unat (w :: uint32_t) = n \<Longrightarrow> (ucast w :: byte) = of_nat n"
  by (metis of_nat_unat)

lemma loop_unrolled:
  "readUtf16Codepoint_loop 1 1 c result = ucast (c AND 0x7F) # result"
  "readUtf16Codepoint_loop 2 2 c result =
     ucast ((drop_bit 6 c AND 0x1F) OR 0xC0) # ucast ((c AND 0x3F) OR 0x80) # result"
  "readUtf16Codepoint_loop 3 3 c result =
     ucast ((drop_bit 12 c AND 0x0F) OR 0xE0) # ucast ((drop_bit 6 c AND 0x3F) OR 0x80)
       # ucast ((c AND 0x3F) OR 0x80) # result"
  "readUtf16Codepoint_loop 4 4 c result =
     ucast ((drop_bit 18 c AND 0x07) OR 0xF0)
       # ucast ((drop_bit 12 c AND 0x3F) OR 0x80) # ucast ((drop_bit 6 c AND 0x3F) OR 0x80)
       # ucast ((c AND 0x3F) OR 0x80) # result"
proof -
  have n: "(1::nat) = Suc 0" "(2::nat) = Suc (Suc 0)" "(3::nat) = Suc (Suc (Suc 0))"
    "(4::nat) = Suc (Suc (Suc (Suc 0)))"
    by simp_all
  show "readUtf16Codepoint_loop 1 1 c result = ucast (c AND 0x7F) # result"
    by (subst n(1)) (simp del: One_nat_def)
  show "readUtf16Codepoint_loop 2 2 c result =
     ucast ((drop_bit 6 c AND 0x1F) OR 0xC0) # ucast ((c AND 0x3F) OR 0x80) # result"
    by (subst (2) n(2)) simp
  show "readUtf16Codepoint_loop 3 3 c result =
     ucast ((drop_bit 12 c AND 0x0F) OR 0xE0) # ucast ((drop_bit 6 c AND 0x3F) OR 0x80)
       # ucast ((c AND 0x3F) OR 0x80) # result"
    by (subst (2) n(3)) simp
  show "readUtf16Codepoint_loop 4 4 c result =
     ucast ((drop_bit 18 c AND 0x07) OR 0xF0)
       # ucast ((drop_bit 12 c AND 0x3F) OR 0x80) # ucast ((drop_bit 6 c AND 0x3F) OR 0x80)
       # ucast ((c AND 0x3F) OR 0x80) # result"
    by (subst (2) n(4)) simp
qed

lemma utf8_bytes:
  fixes c :: uint32_t
  shows "ucast (c AND 0x7F) = (of_nat (unat c mod 128) :: byte)"
    and "ucast ((c AND 0x3F) OR 0x80) = (of_nat (0x80 + unat c mod 64) :: byte)"
    and "ucast ((drop_bit 6 c AND 0x3F) OR 0x80) = (of_nat (0x80 + unat c div 64 mod 64) :: byte)"
    and "ucast ((drop_bit 12 c AND 0x3F) OR 0x80)
           = (of_nat (0x80 + unat c div 4096 mod 64) :: byte)"
    and "ucast ((drop_bit 6 c AND 0x1F) OR 0xC0) = (of_nat (0xC0 + unat c div 64 mod 32) :: byte)"
    and "ucast ((drop_bit 12 c AND 0x0F) OR 0xE0)
           = (of_nat (0xE0 + unat c div 4096 mod 16) :: byte)"
    and "ucast ((drop_bit 18 c AND 0x07) OR 0xF0)
           = (of_nat (0xF0 + unat c div 262144 mod 8) :: byte)"
  by (rule byte_of_unat,
      simp add: unsigned_or_eq unsigned_and_eq unat_drop_bit_eq drop_bit_eq_div [where 'a = nat]
        and_low_nat_numerals or_high_nat_numerals div_mult2_eq [symmetric])+

lemma unat_code_point: "cp \<le> 0x10FFFF \<Longrightarrow> unat (of_nat cp :: uint32_t) = cp"
  by (simp add: unat_of_nat)

lemma readUtf16Codepoint_encode_utf8:
  assumes "cp \<le> 0x10FFFF"
  shows "readUtf16Codepoint_encode (of_nat cp) = utf8_encode cp"
proof -
  note u = unat_code_point [OF assms]
  consider "cp < 0x80" | "0x80 \<le> cp" "cp < 0x800" | "0x800 \<le> cp" "cp < 0x10000" | "0x10000 \<le> cp"
    by linarith
  then show ?thesis
  proof cases
    case 1
    then show ?thesis
      by (simp add: readUtf16Codepoint_encode_def utf8_encode_def word_less_nat_alt u
          loop_unrolled utf8_bytes unat_drop_bit_eq drop_bit_eq_div [where 'a = nat])
  next
    case 2
    then have "cp div 64 < 32"
      by simp
    with 2 show ?thesis
      by (simp add: readUtf16Codepoint_encode_def utf8_encode_def word_less_nat_alt u
          loop_unrolled utf8_bytes unat_drop_bit_eq drop_bit_eq_div [where 'a = nat])
  next
    case 3
    then have "cp div 4096 < 16"
      by simp
    with 3 show ?thesis
      by (simp add: readUtf16Codepoint_encode_def utf8_encode_def word_less_nat_alt u
          loop_unrolled utf8_bytes unat_drop_bit_eq drop_bit_eq_div [where 'a = nat])
  next
    case 4
    from assms have "cp div 262144 < 8"
      by simp
    with 4 show ?thesis
      by (simp add: readUtf16Codepoint_encode_def utf8_encode_def word_less_nat_alt u
          loop_unrolled utf8_bytes unat_drop_bit_eq drop_bit_eq_div [where 'a = nat])
  qed
qed

lemma ucast_byte_of_nat: "n < 256 \<Longrightarrow> (ucast (of_nat n :: byte) :: uint16_t) = of_nat n"
  by (simp add: word_unat_eq_iff unsigned_ucast_eq unat_of_nat take_bit_eq_mod)

lemma read_code_unit:
  assumes "u < 65536"
  shows "readInteger (before @ [of_nat (u mod 256), of_nat (u div 256)] @ rest) (length before)
           = Inr (of_nat u :: uint16_t)"
proof -
  have "u = u mod 256 + u div 256 * 256"
    by simp
  then have "(of_nat u :: uint16_t) = of_nat (u mod 256) + of_nat (u div 256) * 256"
    by (metis of_nat_add of_nat_mult of_nat_numeral)
  moreover from assms have "u div 256 < 256"
    by simp
  ultimately show ?thesis
    by (simp add: readInteger_u16 nth_append ucast_byte_of_nat)
qed

lemma code_unit_words:
  assumes "u < 65536"
  shows "unat (of_nat u :: uint16_t) = u" and "(ucast (of_nat u :: uint16_t) :: uint32_t) = of_nat u"
    and "unat (ucast (of_nat u :: uint16_t) :: uint32_t) = u"
proof -
  from assms show u: "unat (of_nat u :: uint16_t) = u"
    by (simp add: unat_of_nat)
  then show "unat (ucast (of_nat u :: uint16_t) :: uint32_t) = u"
    by (simp add: unat_ucast_uint16)
  then show "(ucast (of_nat u :: uint16_t) :: uint32_t) = of_nat u"
    by (metis of_nat_unat ucast_id)
qed

lemma surrogate_low_bits:
  "a < 1024 \<Longrightarrow> (55296 + a) mod 1024 = (a::nat)" "b < 1024 \<Longrightarrow> (56320 + b) mod 1024 = (b::nat)"
proof -
  have "(54 * 1024 + a) mod 1024 = a mod 1024" "(55 * 1024 + b) mod 1024 = b mod 1024"
    by (simp_all only: mod_mult_self3)
  then show "a < 1024 \<Longrightarrow> (55296 + a) mod 1024 = a" "b < 1024 \<Longrightarrow> (56320 + b) mod 1024 = b"
    by simp_all
qed

lemma surrogate_pair_value:
  assumes "a < 1024" and "b < 1024"
  shows "(push_bit 10 ((ucast (of_nat (0xD800 + a) :: uint16_t) :: uint32_t) AND 0x03FF)
            OR ((ucast (of_nat (0xDC00 + b) :: uint16_t) :: uint32_t) AND 0x03FF)) + 0x10000
         = of_nat (0x10000 + (a * 1024 + b))"
proof -
  define high where "high = (ucast (of_nat (0xD800 + a) :: uint16_t) :: uint32_t) AND 0x03FF"
  define low where "low = (ucast (of_nat (0xDC00 + b) :: uint16_t) :: uint32_t) AND 0x03FF"
  from assms have h: "unat high = a"
    using code_unit_words(3) [of "0xD800 + a"]
    by (simp add: high_def unsigned_and_eq and_low_nat_numerals surrogate_low_bits)
  from assms have l: "unat low = b"
    using code_unit_words(3) [of "0xDC00 + b"]
    by (simp add: low_def unsigned_and_eq and_low_nat_numerals surrogate_low_bits)
  from assms have "a * 1024 < 4294967296"
    by simp
  then have p: "unat (high * 1024) = a * 1024"
    by (simp add: unat_word_ariths h)
  from assms have "b OR push_bit 10 a = b + push_bit 10 a"
    by (intro or_high_nat) simp
  then have "unat (push_bit 10 high OR low) = a * 1024 + b"
    by (simp add: unsigned_or_eq l p push_bit_eq_mult or.commute)
  with assms have "unat ((push_bit 10 high OR low) + 0x10000) = 0x10000 + (a * 1024 + b)"
    by (simp add: unat_word_ariths)
  then have "(push_bit 10 high OR low) + 0x10000 = of_nat (0x10000 + (a * 1024 + b))"
    by (metis of_nat_unat ucast_id)
  then show ?thesis
    by (simp only: high_def low_def)
qed

lemma readUtf16Codepoint_single:
  assumes "cp < 0x10000" and "\<not> (0xD800 \<le> cp \<and> cp \<le> 0xDFFF)"
  shows "readUtf16Codepoint (before @ little_endian (utf16_encode cp) @ after) (length before) end'
           = Inr (utf8_encode cp, 2)"
proof -
  from assms(1) have u: "cp < 65536" and range: "cp \<le> 0x10FFFF"
    by simp_all
  from assms(1) have enc: "little_endian (utf16_encode cp) = [of_nat (cp mod 256), of_nat (cp div 256)]"
    by (simp add: utf16_encode_def little_endian_def)
  have read: "readInteger (before @ little_endian (utf16_encode cp) @ after) (length before)
                = Inr (of_nat cp :: uint16_t)"
    unfolding enc using u by (rule read_code_unit)
  have "(ucast (of_nat cp :: uint16_t) :: uint32_t) AND 0xF800 \<noteq> 0xD800"
    using assms(2) generic_surrogate_iff [of "of_nat cp"]
    by (simp add: word_le_nat_alt code_unit_words(1) [OF u])
  then have "readUtf16Codepoint (before @ little_endian (utf16_encode cp) @ after) (length before) end'
               = Inr (readUtf16Codepoint_encode (of_nat cp), 2)"
    by (simp add: readUtf16Codepoint_def read code_unit_words(2) [OF u])
  with readUtf16Codepoint_encode_utf8 [OF range] show ?thesis
    by simp
qed

lemma readUtf16Codepoint_pair:
  assumes "0x10000 \<le> cp" and "cp \<le> 0x10FFFF" and "length before + 4 \<le> end'"
  shows "readUtf16Codepoint (before @ little_endian (utf16_encode cp) @ after) (length before) end'
           = Inr (utf8_encode cp, 4)"
proof -
  define a where "a = (cp - 0x10000) div 0x400"
  define b where "b = (cp - 0x10000) mod 0x400"
  define hu where "hu = 0xD800 + a"
  define lu where "lu = 0xDC00 + b"
  define bytes where "bytes = before @ little_endian (utf16_encode cp) @ after"
  from assms(1,2) have a: "a < 1024" and b: "b < 1024"
    by (simp_all add: a_def b_def)
  have cp: "0x10000 + (a * 1024 + b) = cp"
    using assms(1) by (simp add: a_def b_def)
  from a b have hu: "hu < 65536" "55296 \<le> hu" "hu \<le> 56319" and lu: "lu < 65536" "56320 \<le> lu" "lu \<le> 57343"
    by (simp_all add: hu_def lu_def)
  from assms(1) have enc: "little_endian (utf16_encode cp)
      = [of_nat (hu mod 256), of_nat (hu div 256)] @ [of_nat (lu mod 256), of_nat (lu div 256)]"
    by (simp add: utf16_encode_def little_endian_def hu_def lu_def a_def b_def)
  have high: "readInteger bytes (length before) = Inr (of_nat hu :: uint16_t)"
    using read_code_unit [OF hu(1), of before "[of_nat (lu mod 256), of_nat (lu div 256)] @ after"]
    by (simp add: bytes_def enc)
  have low: "readInteger bytes (length before + 2) = Inr (of_nat lu :: uint16_t)"
    using read_code_unit [OF lu(1), of "before @ [of_nat (hu mod 256), of_nat (hu div 256)]" after]
    by (simp add: bytes_def enc)
  have generic: "(ucast (of_nat hu :: uint16_t) :: uint32_t) AND 0xF800 = 0xD800"
    using hu generic_surrogate_iff [of "of_nat hu"]
    by (simp add: word_le_nat_alt code_unit_words(1))
  have high_surrogate: "(ucast (of_nat hu :: uint16_t) :: uint32_t) AND 0xFC00 = 0xD800"
    using hu high_surrogate_iff [of "of_nat hu"]
    by (simp add: word_le_nat_alt code_unit_words(1))
  have low_surrogate: "(ucast (of_nat lu :: uint16_t) :: uint32_t) AND 0xFC00 = 0xDC00"
    using lu low_surrogate_iff [of "of_nat lu"]
    by (simp add: word_le_nat_alt code_unit_words(1))
  define codepoint where "codepoint
      = (push_bit 10 ((ucast (of_nat hu :: uint16_t) :: uint32_t) AND 0x03FF)
            OR ((ucast (of_nat lu :: uint16_t) :: uint32_t) AND 0x03FF)) + 0x10000"
  have "codepoint = of_nat cp"
    unfolding codepoint_def hu_def lu_def using surrogate_pair_value [OF a b] by (simp only: cp)
  moreover have "readUtf16Codepoint bytes (length before) end' = Inr (readUtf16Codepoint_encode codepoint, 4)"
    unfolding readUtf16Codepoint_def high low codepoint_def
    using assms(3) generic high_surrogate low_surrogate
    by simp
  ultimately have "readUtf16Codepoint bytes (length before) end' = Inr (readUtf16Codepoint_encode (of_nat cp), 4)"
    by simp
  with readUtf16Codepoint_encode_utf8 [OF assms(2)] show ?thesis
    by (simp add: bytes_def)
qed

text \<open>
  The transcoder by itself: for a code point that is not a surrogate, encoded as UTF-16 at
  offset \<open>i\<close>, \<^verbatim>\<open>readUtf16Codepoint\<close> returns the standard UTF-8 encoding, provided that the
  bound \<open>end\<close> it is given is not before the end of the encoding.
\<close>

lemma readUtf16Codepoint_roundtrip:
  assumes "scalar_value cp"
    and "length before + length (little_endian (utf16_encode cp)) \<le> end'"
  shows "readUtf16Codepoint (before @ little_endian (utf16_encode cp) @ after) (length before) end'
           = Inr (utf8_encode cp, length (little_endian (utf16_encode cp)))"
proof (cases "cp < 0x10000")
  case True
  then have "length (little_endian (utf16_encode cp)) = 2"
    by (simp add: utf16_encode_def little_endian_def)
  with True assms(1) readUtf16Codepoint_single [of cp before after end'] show ?thesis
    by (simp add: scalar_value_def)
next
  case False
  then have "length (little_endian (utf16_encode cp)) = 4"
    by (simp add: utf16_encode_def little_endian_def)
  with False assms readUtf16Codepoint_pair [of cp before end' after] show ?thesis
    by (simp add: scalar_value_def)
qed

section \<open>What a caller sees of a run that did not read everything\<close>

text \<open>
  Claim C1. The file of the example is cut after the fileinfo header: the attributes and the
  size are read and assigned, then the read of the location flags at offset 86 throws. The
  object the caller holds keeps the two new values next to the members of the earlier file.
\<close>

theorem refresh_failure_leaves_partial_update:
  "refresh (take 83 plain_lnk) icon_object
     = Inl (InvalidLnkFile, icon_object\<lparr>m_targetAttributes := 0x20, m_targetSize := 12\<rparr>)
   \<and> icon_object\<lparr>m_targetAttributes := 0x20, m_targetSize := 12\<rparr> \<noteq> icon_object"
proof -
  have "refresh (take 83 plain_lnk) icon_object
     = Inl (InvalidLnkFile, icon_object\<lparr>m_targetAttributes := 0x20, m_targetSize := 12\<rparr>)"
    by code_simp
  moreover have "icon_object\<lparr>m_targetAttributes := 0x20, m_targetSize := 12\<rparr> \<noteq> icon_object"
    by (simp add: icon_object_def)
  ultimately show ?thesis by simp
qed

text \<open>
  Claim C3. The example file has no custom icon (bit \<open>0x40\<close> of the flags \<open>0x08\<close> is not
  set) and is read without error, but \<^verbatim>\<open>refresh\<close> assigns \<^verbatim>\<open>_iconIndex\<close> and \<^verbatim>\<open>_iconPath\<close>
  only when the bit is set: the object keeps the icon of the earlier file, and the accessor
  returns 8.
\<close>

theorem refresh_keeps_icon_of_earlier_file:
  "(readInteger plain_lnk 20 :: error + byte) = Inr 0x08
   \<and> (\<exists>this. refresh plain_lnk icon_object = Inr this \<and> iconIndex this = 8 \<and> hasCustomIcon this)"
proof -
  have "(readInteger plain_lnk 20 :: error + byte) = Inr 0x08"
    by code_simp
  moreover have "refresh plain_lnk icon_object
       = Inr (icon_object\<lparr>m_targetAttributes := 0x20, m_targetSize := 12, m_relativeTargetPath := [0x41]\<rparr>)"
    by code_simp
  moreover have "iconIndex (icon_object\<lparr>m_targetAttributes := 0x20, m_targetSize := 12,
      m_relativeTargetPath := [0x41]\<rparr>) = 8"
    by (simp add: iconIndex_def icon_object_def)
  moreover have "hasCustomIcon (icon_object\<lparr>m_targetAttributes := 0x20, m_targetSize := 12,
      m_relativeTargetPath := [0x41]\<rparr>)"
    by (simp add: hasCustomIcon_def icon_object_def)
  ultimately show ?thesis by simp
qed

section \<open>Targets on the network\<close>

text \<open>
  Claim C9, amended. Let the file be read without error and let bit \<open>0x02\<close> of the byte at
  \<open>start + 8\<close> be set. Then the volume type is \<^verbatim>\<open>NetworkDrive\<close> and the volume serial is 0.
  Let moreover the fileinfo header be \<open>0x1C\<close>, the file shorter than \<open>2^32\<close> bytes, and let
  the share name at \<open>volumeOffset + 20\<close> and the string behind its terminator, the drive,
  consist of bytes below \<open>0x80\<close>. Then the target path is the drive, one backslash, and the
  Latin-1 string behind the terminator of the drive, written as UTF-8. The three strings are
  taken from the buffer as they lie there, one behind the terminator of the other.
\<close>

theorem refresh_network_target:
  fixes location :: byte
  assumes ok: "refresh bytes this = Inr this'"
    and headers: "refresh_checkHeaders bytes = Inr (start, fileinfoHeader)"
    and location: "readInteger bytes (unat start + 8) = Inr location" "location AND 0x02 \<noteq> 0"
  shows "targetVolumeType this' = NetworkDrive \<and> targetVolumeSerial this' = 0
       \<and> (\<exists>shareOffset.
             readInteger bytes (unat start + 20) = Inr shareOffset
           \<and> (let share = unat (ucast start + shareOffset + 20 :: uint32_t);
                  drive = share + length (c_string bytes share) + 1;
                  rest = drive + length (c_string bytes drive) + 1
              in fileinfoHeader = 0x1C \<and> length bytes < 4294967296
                 \<and> ascii (c_string bytes share) \<and> ascii (c_string bytes drive)
                 \<longrightarrow> absoluteTargetPath this'
                      = c_string bytes drive @ [0x5C]
                          @ concat (map latin1_to_utf8 (c_string bytes rest))))"
proof -
  from refresh_Inr [OF ok] headers obtain t1 pathOffset t2 t3 where
    info: "refresh_targetInfo bytes start this = Inr t1"
    and path: "refresh_pathAndVolume bytes start t1 = Inr (pathOffset, t2)"
    and unicode: "refresh_unicodePath bytes fileinfoHeader pathOffset t2 = Inr t3"
    and additional: "refresh_additionalInfo bytes start t3 = Inr this'"
    by auto
  from refresh_targetInfo_Inr [OF info] location have "m_targetIsOnNetwork t1"
    by auto
  with path have "refresh_network bytes start t1 = Inr (pathOffset, t2)"
    by (simp add: refresh_pathAndVolume_def)
  from refresh_network_Inr [OF this] obtain shareOffset volumeName targetDrive rest' where
    shareOffset: "readInteger bytes (unat start + 20) = Inr shareOffset"
    and name: "readNullTerminatedString bytes (unat (ucast start + shareOffset + 20 :: uint32_t))
        = Inr volumeName"
    and drive: "readNullTerminatedString bytes
         (unat (ucast start + shareOffset + 21 :: uint32_t) + length volumeName) = Inr targetDrive"
    and rest: "readNullTerminatedString bytes pathOffset = Inr rest'"
    and pathOffset: "pathOffset = unat (ucast start + shareOffset + 21 :: uint32_t) + length volumeName
        + (length targetDrive + 1)"
    and t2: "t2 = t1\<lparr>m_targetVolumeType := NetworkDrive, m_targetVolumeSerial := 0,
        m_targetVolumeName := volumeName, m_targetPath := targetDrive @ [0x5C] @ rest'\<rparr>"
    by blast
  have t3: "m_targetVolumeType t3 = NetworkDrive" "m_targetVolumeSerial t3 = 0"
    "fileinfoHeader = 0x1C \<longrightarrow> m_targetPath t3 = targetDrive @ [0x5C] @ rest'"
    using refresh_unicodePath_Inr [OF unicode] t2 by (auto split: if_splits)
  from refresh_additionalInfo_same_target [OF additional] t3
  have this': "m_targetVolumeType this' = NetworkDrive" "m_targetVolumeSerial this' = 0"
    "fileinfoHeader = 0x1C \<longrightarrow> m_targetPath this' = targetDrive @ [0x5C] @ rest'"
    by (simp_all add: same_target_def)
  define share where "share = unat (ucast start + shareOffset + 20 :: uint32_t)"
  define driveOffset where "driveOffset = share + length (c_string bytes share) + 1"
  define restOffset where "restOffset = driveOffset + length (c_string bytes driveOffset) + 1"
  have "absoluteTargetPath this'
      = c_string bytes driveOffset @ [0x5C] @ concat (map latin1_to_utf8 (c_string bytes restOffset))"
    if header: "fileinfoHeader = 0x1C" and small: "length bytes < 4294967296"
      and ascii: "ascii (c_string bytes share)" "ascii (c_string bytes driveOffset)"
  proof -
    from readNullTerminatedString_c_string(2) [OF name] small
    have "unat (ucast start + shareOffset + 20 :: uint32_t) + 1 < 4294967296"
      by simp
    then have next_offset: "unat (ucast start + shareOffset + 21 :: uint32_t) = share + 1"
      unfolding share_def by (rule unat_next_offset)
    from readNullTerminatedString_c_string(3) [OF name] ascii(1)
    have "volumeName = c_string bytes share"
      by (simp add: share_def)
    with next_offset have d: "unat (ucast start + shareOffset + 21 :: uint32_t) + length volumeName
        = driveOffset"
      by (simp add: driveOffset_def)
    from readNullTerminatedString_c_string(3) [OF drive] ascii(2) d
    have targetDrive: "targetDrive = c_string bytes driveOffset"
      by simp
    with pathOffset d have "pathOffset = restOffset"
      by (simp add: restOffset_def)
    with readNullTerminatedString_c_string(1) [OF rest]
    have "rest' = concat (map latin1_to_utf8 (c_string bytes restOffset))"
      by simp
    with this'(3) header targetDrive show ?thesis
      by (simp add: absoluteTargetPath_def)
  qed
  with this'(1,2) shareOffset show ?thesis
    unfolding targetVolumeType_def targetVolumeSerial_def
    by (intro conjI exI [of _ shareOffset])
      (simp_all add: Let_def share_def driveOffset_def restOffset_def)
qed

theorem refresh_network_target_witness:
  "(\<exists>this'. refresh network_lnk icon_object = Inr this'
      \<and> targetVolumeType this' = NetworkDrive \<and> targetVolumeSerial this' = 0
      \<and> absoluteTargetPath this'
           = c_string network_lnk 128 @ [0x5C] @ concat (map latin1_to_utf8 (c_string network_lnk 131)))
   \<and> c_string network_lnk 126 = [0x53] \<and> c_string network_lnk 128 = [0x44, 0x3A]
   \<and> c_string network_lnk 131 = [0x54]"
proof -
  let ?this' = "icon_object\<lparr>m_targetAttributes := 0x20, m_targetSize := 12,
       m_targetIsOnNetwork := True, m_targetVolumeType := NetworkDrive, m_targetVolumeSerial := 0,
       m_targetVolumeName := [0x53], m_targetPath := [0x44, 0x3A, 0x5C, 0x54]\<rparr>"
  have ok: "refresh network_lnk icon_object = Inr ?this'"
    by code_simp
  have headers: "refresh_checkHeaders network_lnk = Inr (78, 0x1C)"
    by code_simp
  have location: "(readInteger network_lnk (unat (78 :: uint16_t) + 8) :: error + byte) = Inr 0x02"
    by code_simp
  have share: "(readInteger network_lnk (unat (78 :: uint16_t) + 20) :: error + uint32_t) = Inr 28"
    by code_simp
  have strings: "c_string network_lnk 126 = [0x53]" "c_string network_lnk 128 = [0x44, 0x3A]"
    "c_string network_lnk 131 = [0x54]"
    by code_simp+
  have small: "length network_lnk < 4294967296"
    by (simp add: network_lnk_def)
  from refresh_network_target [OF ok headers location] share strings small
  have "targetVolumeType ?this' = NetworkDrive \<and> targetVolumeSerial ?this' = 0
      \<and> absoluteTargetPath ?this'
           = c_string network_lnk 128 @ [0x5C] @ concat (map latin1_to_utf8 (c_string network_lnk 131))"
    by (simp add: Let_def ascii_def)
  with ok strings show ?thesis
    by simp
qed

text \<open>
  With the fileinfo header \<open>0x24\<close> the claim as stated fails: the joined path is replaced by
  the UTF-16 string read behind it. In the example the drive is \<^verbatim>\<open>D:\<close> and the rest is
  \<^verbatim>\<open>T\<close>, and the target path is \<^verbatim>\<open>WXYZ\<close>.
\<close>

theorem refresh_network_target_replaced:
  "refresh_checkHeaders network_unicode_lnk = Inr (78, 0x24)
   \<and> (readInteger network_unicode_lnk 86 :: error + byte) = Inr 0x02
   \<and> readNullTerminatedString network_unicode_lnk 136 = Inr [0x44, 0x3A]
   \<and> readNullTerminatedString network_unicode_lnk 139 = Inr [0x54]
   \<and> refresh network_unicode_lnk icon_object
       = Inr (icon_object\<lparr>m_targetAttributes := 0x20, m_targetSize := 12,
            m_targetIsOnNetwork := True, m_targetVolumeType := NetworkDrive, m_targetVolumeSerial := 0,
            m_targetVolumeName := [0x53], m_targetPath := [0x57, 0x58, 0x59, 0x5A]\<rparr>)"
  by code_simp

text \<open>
  The restriction to bytes below \<open>0x80\<close> is needed: the parser steps over the share name
  and the drive by the size of the UTF-8 text it made of them. In the example the share name
  is the byte \<open>E9\<close>, two bytes as UTF-8: the drive \<^verbatim>\<open>D:\<close> lies at 128 behind the terminator
  of the share name, the parser reads it at 129, and the target path is \<^verbatim>\<open>:\T\<close>.
\<close>

lemma refresh_network_share_name_latin1:
  "c_string (network_lnk[126 := 0xE9]) 126 = [0xE9]
   \<and> c_string (network_lnk[126 := 0xE9]) 128 = [0x44, 0x3A]
   \<and> refresh (network_lnk[126 := 0xE9]) icon_object
       = Inr (icon_object\<lparr>m_targetAttributes := 0x20, m_targetSize := 12,
            m_targetIsOnNetwork := True, m_targetVolumeType := NetworkDrive, m_targetVolumeSerial := 0,
            m_targetVolumeName := [0xC3, 0xA9], m_targetPath := [0x3A, 0x5C, 0x54]\<rparr>)"
  by code_simp

section \<open>The Unicode target path\<close>

text \<open>
  Claim C2, amended. Let the fileinfo header be \<open>0x24\<close>, the target local, and the file read
  without error; let the Latin-1 path at \<open>pathOffset\<close> have \<open>n\<close> bytes in front of its
  terminator, all below \<open>0x80\<close>. Then the target path is what the loop of
  \<^verbatim>\<open>readFixedLengthString\<close> returns for the offset \<open>pathOffset + n\<close> and the length \<open>2 * n\<close>:
  the loop reads code points from \<open>pathOffset + n + 2\<close> on, one byte behind the terminator,
  until it has read \<open>2 * n\<close> bytes or more.
\<close>

theorem refresh_unicode_target:
  fixes location :: byte
  assumes ok: "refresh bytes this = Inr this'"
    and headers: "refresh_checkHeaders bytes = Inr (start, 0x24)"
    and location: "readInteger bytes (unat start + 8) = Inr location" "location AND 0x02 = 0"
    and offset: "readInteger bytes (unat start + 16) = Inr relativeOffset"
    and pathOffset: "pathOffset = unat (ucast start + relativeOffset :: uint32_t)"
    and latin1: "latin1 = takeWhile (\<lambda>c. c \<noteq> 0) (drop pathOffset bytes)"
    and ascii: "\<forall>c \<in> set latin1. c < 0x80"
  shows "readFixedLengthString_loop bytes (pathOffset + length latin1) (length latin1 * 2) 0 []
           = Inr (absoluteTargetPath this')"
proof -
  from refresh_Inr [OF ok] headers obtain t1 pathOffset' t2 t3 where
    info: "refresh_targetInfo bytes start this = Inr t1"
    and path: "refresh_pathAndVolume bytes start t1 = Inr (pathOffset', t2)"
    and unicode: "refresh_unicodePath bytes 0x24 pathOffset' t2 = Inr t3"
    and additional: "refresh_additionalInfo bytes start t3 = Inr this'"
    by auto
  from refresh_targetInfo_Inr [OF info] location have "\<not> m_targetIsOnNetwork t1"
    by auto
  with path have "refresh_local bytes start t1 = Inr (pathOffset', t2)"
    by (simp add: refresh_pathAndVolume_def)
  from refresh_local_Inr [OF this] offset pathOffset obtain path' where
    p: "pathOffset' = pathOffset" "readNullTerminatedString bytes pathOffset = Inr path'"
      "m_targetPath t2 = path'"
    by auto
  from p(2) latin1 ascii have "path' = latin1"
    by (simp add: readNullTerminatedString_eq concat_latin1_ascii split: if_splits)
  with p refresh_unicodePath_Inr [OF unicode]
  have "readFixedLengthString bytes (pathOffset + length latin1) (length latin1 * 2)
          = Inr (m_targetPath t3)"
    by auto
  moreover from refresh_additionalInfo_same_target [OF additional]
  have "m_targetPath this' = m_targetPath t3"
    by (simp add: same_target_def)
  ultimately show ?thesis
    by (simp add: readFixedLengthString_def absoluteTargetPath_def)
qed

theorem refresh_unicode_target_witness:
  "refresh unicode_lnk icon_object
     = Inr (icon_object\<lparr>m_targetAttributes := 0x20, m_targetSize := 12, m_targetPath := [0x42]\<rparr>)
   \<and> takeWhile (\<lambda>c. c \<noteq> 0) (drop 132 unicode_lnk) = [0x41]
   \<and> readFixedLengthString_loop unicode_lnk (132 + 1) (1 * 2) 0 [] = Inr [0x42]"
proof -
  have ok: "refresh unicode_lnk icon_object
     = Inr (icon_object\<lparr>m_targetAttributes := 0x20, m_targetSize := 12, m_targetPath := [0x42]\<rparr>)"
    by code_simp
  have headers: "refresh_checkHeaders unicode_lnk = Inr (78, 0x24)"
    by code_simp
  have location: "(readInteger unicode_lnk (unat (78 :: uint16_t) + 8) :: error + byte) = Inr 0x01"
    by code_simp
  have offset: "(readInteger unicode_lnk (unat (78 :: uint16_t) + 16) :: error + uint32_t) = Inr 54"
    by code_simp
  have pathOffset: "(132 :: nat) = unat (ucast (78 :: uint16_t) + 54 :: uint32_t)"
    by simp
  have latin1: "[0x41] = takeWhile (\<lambda>c. c \<noteq> 0) (drop 132 unicode_lnk)"
    by code_simp
  have "readFixedLengthString_loop unicode_lnk (132 + length [0x41 :: byte]) (length [0x41 :: byte] * 2) 0 []
      = Inr (absoluteTargetPath (icon_object\<lparr>m_targetAttributes := 0x20, m_targetSize := 12,
          m_targetPath := [0x42]\<rparr>))"
    by (rule refresh_unicode_target [OF ok headers location _ offset pathOffset latin1]) simp_all
  with ok latin1 [symmetric] show ?thesis
    by (simp add: absoluteTargetPath_def)
qed

text \<open>
  The claim as stated fails: the UTF-16 string is not read immediately behind the terminated
  Latin-1 path. In the example the path \<^verbatim>\<open>A\<close> is at 132 and its terminator at 133; the two
  bytes behind it, at 134, are \<open>00 42\<close>, the code unit \<open>U+4200\<close> with the UTF-8 bytes
  \<open>E4 88 80\<close>. The target path is \<^verbatim>\<open>B\<close>, read at 135.
\<close>

theorem refresh_unicode_target_not_adjacent:
  "refresh_checkHeaders unicode_lnk = Inr (78, 0x24)
   \<and> takeWhile (\<lambda>c. c \<noteq> 0) (drop 132 unicode_lnk) = [0x41]
   \<and> unicode_lnk ! 133 = 0
   \<and> take 2 (drop 134 unicode_lnk) = [0x00, 0x42]
   \<and> readUtf16Codepoint [0x00, 0x42] 0 2 = Inr ([0xE4, 0x88, 0x80], 2)
   \<and> refresh unicode_lnk icon_object
       = Inr (icon_object\<lparr>m_targetAttributes := 0x20, m_targetSize := 12, m_targetPath := [0x42]\<rparr>)"
  by code_simp

section \<open>Truncated files\<close>


text \<open>
  The list of fields is exact: a buffer with the magic byte and a valid fileinfo header in
  which every required field fits is read without error.
\<close>

lemma refresh_not_truncated_Inr:
  fixes extra :: uint16_t and fileinfoHeader :: byte
  assumes "\<not> truncated bytes"
    and magic: "hd bytes = 0x4C"
    and extra: "readInteger bytes 76 = Inr extra"
    and header: "readInteger bytes (unat (78 + extra) + 4) = Inr fileinfoHeader"
    and valid: "fileinfoHeader = 0x1C \<or> fileinfoHeader = 0x24"
  shows "\<exists>this'. refresh bytes this = Inr this'"
proof -
  define start where "start = 78 + extra"
  from assms(1) have fits: "fits bytes (required_fields bytes)"
    by (simp add: truncated_fits)
  then have "0 + sizeof TYPE(8) \<le> length bytes" "24 + sizeof TYPE(16) \<le> length bytes"
    "52 + sizeof TYPE(32) \<le> length bytes" "20 + sizeof TYPE(8) \<le> length bytes"
    by (simp_all add: required_fields_def)
  then obtain attributes :: uint16_t and size' :: uint32_t and flags :: byte where
    attributes: "readInteger bytes 24 = Inr attributes"
    and targetSize: "readInteger bytes 52 = Inr size'"
    and flags: "readInteger bytes 20 = Inr flags"
    and first: "0 < length bytes"
    by (metis readInteger_fits add_0 sizeof_simps(1) less_eq_Suc_le One_nat_def)
  from first magic have magic': "readInteger bytes 0 = Inr (0x4C :: byte)"
    by (simp add: readInteger_u8 hd_conv_nth)
  from fits have link: "fits bytes (link_info_fields bytes start)"
    and strings: "fits bytes (string_section_fields bytes start flags)"
    by (simp_all add: required_fields_def extra flags start_def)
  from link have "unat start + 8 + sizeof TYPE(8) \<le> length bytes"
    by (simp add: link_info_fields_def)
  then obtain location :: byte where location: "readInteger bytes (unat start + 8) = Inr location"
    by (rule readInteger_fits)
  from header have header': "readInteger bytes (unat start + 4) = Inr fileinfoHeader"
    by (simp add: start_def)
  have headers: "refresh_checkHeaders bytes = Inr (start, fileinfoHeader)"
    using valid by (auto simp: refresh_checkHeaders_def magic' extra Let_def start_def [symmetric] header')
  define t1 where "t1 = this\<lparr>m_targetAttributes := attributes, m_targetSize := size',
      m_targetIsOnNetwork := (location AND 0x02 \<noteq> 0)\<rparr>"
  have info: "refresh_targetInfo bytes start this = Inr t1"
    by (simp add: refresh_targetInfo_def attributes targetSize location Let_def t1_def)
  from link have branch: "fits bytes (if location AND 0x02 \<noteq> 0 then network_fields bytes start fileinfoHeader
      else local_fields bytes start fileinfoHeader)"
    by (simp add: link_info_fields_def header' location)
  have "\<exists>pathOffset t2 t3. refresh_pathAndVolume bytes start t1 = Inr (pathOffset, t2)
      \<and> refresh_unicodePath bytes fileinfoHeader pathOffset t2 = Inr t3"
  proof (cases "location AND 0x02 \<noteq> 0")
    case True
    with branch refresh_network_fits [of bytes start fileinfoHeader t1] show ?thesis
      by (simp add: refresh_pathAndVolume_def t1_def)
  next
    case False
    with branch refresh_local_fits [of bytes start fileinfoHeader t1] show ?thesis
      by (simp add: refresh_pathAndVolume_def t1_def)
  qed
  then obtain pathOffset t2 t3 where
    path: "refresh_pathAndVolume bytes start t1 = Inr (pathOffset, t2)"
    and unicode: "refresh_unicodePath bytes fileinfoHeader pathOffset t2 = Inr t3"
    by blast
  from refresh_additionalInfo_fits [OF flags strings] obtain this' where
    "refresh_additionalInfo bytes start t3 = Inr this'"
    by blast
  with headers info path unicode show ?thesis
    by (simp add: refresh_def and_then_def)
qed



section \<open>The flags that are not tested\<close>

text \<open>
  Claim C10, amended. Let two buffers of one length differ only in the two lowest bits of the
  byte at offset 20, and let the sums of the parser not wrap on them. Then \<^verbatim>\<open>refresh\<close> does
  the same on both: the same object on success, the same error and the same object left
  behind on failure.
\<close>

theorem refresh_ignores_untested_flags:
  assumes "length bytes' = length bytes"
    and "\<forall>k. k \<noteq> 20 \<longrightarrow> bytes' ! k = bytes ! k"
    and "bytes' ! 20 AND 0xFC = bytes ! 20 AND 0xFC"
    and "offsets_do_not_wrap bytes"
  shows "refresh bytes' this = refresh bytes this"
  using assms by (intro refresh_agree) (simp_all add: differ_at_20_only_def)

theorem refresh_ignores_untested_flags_witness:
  "offsets_do_not_wrap plain_lnk \<and> plain_lnk ! 20 = 0x08
   \<and> refresh (plain_lnk [20 := 0x0B]) icon_object = refresh plain_lnk icon_object"
proof -
  have reads: "(readInteger plain_lnk 76 :: error + uint16_t) = Inr 0"
    "(readInteger plain_lnk 78 :: error + uint32_t) = Inr 52"
    "(readInteger plain_lnk 86 :: error + byte) = Inr 1"
    "(readInteger plain_lnk 90 :: error + uint32_t) = Inr 28"
    "(readInteger plain_lnk 94 :: error + uint32_t) = Inr 46"
    by code_simp+
  have nowrap: "offsets_do_not_wrap plain_lnk"
    by (simp add: offsets_do_not_wrap_def reads)
  have flags: "plain_lnk ! 20 = 0x08" "plain_lnk [20 := 0x0B] ! 20 = 0x0B"
    by code_simp+
  have "refresh (plain_lnk [20 := 0x0B]) icon_object = refresh plain_lnk icon_object"
    by (rule refresh_ignores_untested_flags) (simp_all add: flags nowrap)
  with nowrap flags show ?thesis
    by simp
qed

text \<open>
  Without the condition on the sums the claim fails: in the example the volume table offset
  wraps \<open>volumeOffset\<close> around to 16, the volume type is read from the flag byte, and the two
  files, which differ in bit \<open>0x01\<close> of that byte only, are both read without error, with
  the volume types 0 and 1.
\<close>

theorem refresh_volume_type_from_flag_byte:
  "aliased_lnk 1 = (aliased_lnk 0) [20 := 1] \<and> aliased_lnk 0 ! 20 = 0
   \<and> refresh (aliased_lnk 0) icon_object
       = Inr (icon_object\<lparr>m_targetPath := [], m_targetVolumeName := [], m_targetVolumeSerial := 0,
            m_targetAttributes := 0, m_targetVolumeType := 0\<rparr>)
   \<and> refresh (aliased_lnk 1) icon_object
       = Inr (icon_object\<lparr>m_targetPath := [], m_targetVolumeName := [], m_targetVolumeSerial := 0,
            m_targetAttributes := 0, m_targetVolumeType := 1\<rparr>)
   \<and> targetVolumeType (icon_object\<lparr>m_targetPath := [], m_targetVolumeName := [],
            m_targetVolumeSerial := 0, m_targetAttributes := 0, m_targetVolumeType := 0\<rparr>)
       \<noteq> targetVolumeType (icon_object\<lparr>m_targetPath := [], m_targetVolumeName := [],
            m_targetVolumeSerial := 0, m_targetAttributes := 0, m_targetVolumeType := 1\<rparr>)"
proof -
  have "aliased_lnk 1 = (aliased_lnk 0) [20 := 1]" "aliased_lnk 0 ! 20 = 0"
    by code_simp+
  moreover have "refresh (aliased_lnk 0) icon_object
       = Inr (icon_object\<lparr>m_targetPath := [], m_targetVolumeName := [], m_targetVolumeSerial := 0,
            m_targetAttributes := 0, m_targetVolumeType := 0\<rparr>)"
    by code_simp
  moreover have "refresh (aliased_lnk 1) icon_object
       = Inr (icon_object\<lparr>m_targetPath := [], m_targetVolumeName := [], m_targetVolumeSerial := 0,
            m_targetAttributes := 0, m_targetVolumeType := 1\<rparr>)"
    by code_simp
  moreover have "targetVolumeType (icon_object\<lparr>m_targetPath := [], m_targetVolumeName := [],
            m_targetVolumeSerial := 0, m_targetAttributes := 0, m_targetVolumeType := 0\<rparr>)
       \<noteq> targetVolumeType (icon_object\<lparr>m_targetPath := [], m_targetVolumeName := [],
            m_targetVolumeSerial := 0, m_targetAttributes := 0, m_targetVolumeType := 1\<rparr>)"
    by (simp add: targetVolumeType_def)
  ultimately show ?thesis
    by (simp only: simp_thms)
qed

section \<open>A surrogate pair at the end of a string\<close>

text \<open>
  Claim C4. The round trip fails in the reader of the strings of the string section.
  \<^verbatim>\<open>readStringWithPrependedLength\<close> gives \<^verbatim>\<open>readUtf16Codepoint\<close> the offset of the last code
  unit of the string as the bound \<open>end\<close>, not the offset behind it, and \<^verbatim>\<open>readUtf16Codepoint\<close>
  reads a low surrogate only when \<open>end\<close> is not less than \<open>i + 4\<close>. For every code point above
  \<open>U+FFFF\<close> that is not a surrogate, the string that consists of its UTF-16 encoding (the
  count 2 and the surrogate pair) is therefore read as two replacement characters
  \<open>EF BF BD\<close>, which is not the UTF-8 encoding of the code point.
\<close>

theorem readStringWithPrependedLength_trailing_pair:
  assumes scalar: "scalar_value cp" and supplementary: "0x10000 \<le> cp"
  shows "readStringWithPrependedLength
           (before @ [0x02, 0x00] @ little_endian (utf16_encode cp) @ after) (length before)
           = Inr ([0xEF, 0xBF, 0xBD, 0xEF, 0xBF, 0xBD], length before + 6)
       \<and> utf8_encode cp \<noteq> [0xEF, 0xBF, 0xBD, 0xEF, 0xBF, 0xBD]"
proof -
  define a where "a = (cp - 0x10000) div 0x400"
  define b where "b = (cp - 0x10000) mod 0x400"
  define hu where "hu = 0xD800 + a"
  define lu where "lu = 0xDC00 + b"
  define bytes where "bytes = before @ [0x02, 0x00] @ little_endian (utf16_encode cp) @ after"
  define i where "i = length before"
  from scalar have range: "cp \<le> 0x10FFFF"
    by (simp add: scalar_value_def)
  with supplementary have a: "a < 1024" and b: "b < 1024"
    by (simp_all add: a_def b_def)
  from a b have hu: "hu < 65536" "55296 \<le> hu" "hu \<le> 56319" and lu: "lu < 65536" "56320 \<le> lu" "lu \<le> 57343"
    by (simp_all add: hu_def lu_def)
  from supplementary have enc: "little_endian (utf16_encode cp)
      = [of_nat (hu mod 256), of_nat (hu div 256)] @ [of_nat (lu mod 256), of_nat (lu div 256)]"
    by (simp add: utf16_encode_def little_endian_def hu_def lu_def a_def b_def)
  define p where "p = i + 2"
  define e where "e = i + 4"
  have pe: "p \<le> e" "e < p + 4" "p + 2 = e" "\<not> e + 2 \<le> e" "e < e + 4" "Suc (Suc p) = e"
    by (simp_all add: p_def e_def)
  have count: "readInteger bytes i = Inr (2 :: uint16_t)"
    using read_code_unit [of 2 before "little_endian (utf16_encode cp) @ after"]
    by (simp add: bytes_def i_def)
  have high: "readInteger bytes p = Inr (of_nat hu :: uint16_t)"
    using read_code_unit [OF hu(1), of "before @ [0x02, 0x00]"
        "[of_nat (lu mod 256), of_nat (lu div 256)] @ after"]
    by (simp add: bytes_def enc i_def p_def)
  have n4: "Suc (Suc (Suc (Suc (length before)))) = length before + 4"
    by simp
  have low: "readInteger bytes e = Inr (of_nat lu :: uint16_t)"
    using read_code_unit [OF lu(1), of "before @ [0x02, 0x00] @ [of_nat (hu mod 256), of_nat (hu div 256)]" after]
    by (simp add: bytes_def enc i_def e_def n4)
  have generic_high: "(ucast (of_nat hu :: uint16_t) :: uint32_t) AND 0xF800 = 0xD800"
    using hu generic_surrogate_iff [of "of_nat hu"]
    by (simp add: word_le_nat_alt code_unit_words(1))
  have generic_low: "(ucast (of_nat lu :: uint16_t) :: uint32_t) AND 0xF800 = 0xD800"
    using lu generic_surrogate_iff [of "of_nat lu"]
    by (simp add: word_le_nat_alt code_unit_words(1))
  have not_high: "(ucast (of_nat lu :: uint16_t) :: uint32_t) AND 0xFC00 \<noteq> 0xD800"
    using lu high_surrogate_iff [of "of_nat lu"]
    by (simp add: word_le_nat_alt code_unit_words(1))
  have first: "readUtf16Codepoint bytes p e = Inr ([0xEF, 0xBF, 0xBD], 2)"
    unfolding readUtf16Codepoint_def high using generic_high pe(2)
    by (simp add: encode_replacement)
  have second: "readUtf16Codepoint bytes e e = Inr ([0xEF, 0xBF, 0xBD], 2)"
    unfolding readUtf16Codepoint_def low using generic_low not_high
    by (simp add: encode_replacement)
  have "readStringWithPrependedLength_loop bytes (e + 2) e [0xEF, 0xBF, 0xBD, 0xEF, 0xBF, 0xBD]
          = Inr [0xEF, 0xBF, 0xBD, 0xEF, 0xBF, 0xBD]"
    by (subst readStringWithPrependedLength_loop.simps) simp
  then have "readStringWithPrependedLength_loop bytes e e [0xEF, 0xBF, 0xBD]
          = Inr [0xEF, 0xBF, 0xBD, 0xEF, 0xBF, 0xBD]"
    by (subst readStringWithPrependedLength_loop.simps) (simp add: second)
  then have loop: "readStringWithPrependedLength_loop bytes p e []
          = Inr [0xEF, 0xBF, 0xBD, 0xEF, 0xBF, 0xBD]"
    by (subst readStringWithPrependedLength_loop.simps) (simp add: first pe)
  have "i + unat (2 :: uint16_t) * 2 = e" and "e + 2 = i + 6"
    by (simp_all add: e_def)
  then have "readStringWithPrependedLength bytes i = Inr ([0xEF, 0xBF, 0xBD, 0xEF, 0xBF, 0xBD], i + 6)"
    unfolding readStringWithPrependedLength_def count
    by (simp only: sum.case Let_def p_def [symmetric] loop)
  then have "readStringWithPrependedLength
           (before @ [0x02, 0x00] @ little_endian (utf16_encode cp) @ after) (length before)
           = Inr ([0xEF, 0xBF, 0xBD, 0xEF, 0xBF, 0xBD], length before + 6)"
    by (simp only: bytes_def i_def)
  moreover from supplementary have "length (utf8_encode cp) = 4"
    by (simp add: utf8_encode_def)
  then have "utf8_encode cp \<noteq> [0xEF, 0xBF, 0xBD, 0xEF, 0xBF, 0xBD]"
    by auto
  ultimately show ?thesis
    by simp
qed

theorem readStringWithPrependedLength_trailing_pair_witness:
  "scalar_value 0x1F60A
   \<and> little_endian (utf16_encode 0x1F60A) = [0x3D, 0xD8, 0x0A, 0xDE]
   \<and> utf8_encode 0x1F60A = [0xF0, 0x9F, 0x98, 0x8A]
   \<and> readStringWithPrependedLength [0x02, 0x00, 0x3D, 0xD8, 0x0A, 0xDE] 0
        = Inr ([0xEF, 0xBF, 0xBD, 0xEF, 0xBF, 0xBD], 6)"
proof -
  have s: "scalar_value 0x1F60A"
    by (simp add: scalar_value_def)
  have e: "little_endian (utf16_encode 0x1F60A) = [0x3D, 0xD8, 0x0A, 0xDE]"
    by (simp add: little_endian_def utf16_encode_def)
  have u: "utf8_encode 0x1F60A = [0xF0, 0x9F, 0x98, 0x8A]"
    by (simp add: utf8_encode_def)
  from readStringWithPrependedLength_trailing_pair [of "0x1F60A" "[]" "[]"] s e u
  show ?thesis
    by simp
qed

text \<open>
  In a file: the description of the example is the one character \<open>U+1F60A\<close>, whose UTF-8
  encoding is \<open>F0 9F 98 8A\<close>; \<^verbatim>\<open>refresh\<close> stores two replacement characters. The same pair
  followed by one more code unit is transcoded.
\<close>

lemma refresh_description_trailing_pair:
  "refresh emoji_lnk icon_object
     = Inr (icon_object\<lparr>m_targetAttributes := 0x20, m_targetSize := 12,
          m_description := [0xEF, 0xBF, 0xBD, 0xEF, 0xBF, 0xBD]\<rparr>)"
  by code_simp

lemma readStringWithPrependedLength_pair_inside:
  "readStringWithPrependedLength [0x03, 0x00, 0x3D, 0xD8, 0x0A, 0xDE, 0x41, 0x00] 0
     = Inr ([0xF0, 0x9F, 0x98, 0x8A, 0x41], 8)"
  by code_simp

end
